theory Spec2Isabelle
  imports Main
begin

section \<open>Python values used by the notebooks\<close>

text \<open>
  A Python \<open>str\<close> is a sequence of Unicode code points; the training data is Chinese
  text, so a string is modelled as a list of code points (natural numbers), not of bytes.
  An ASCII literal of the source is written with \<open>str_lit\<close>.
\<close>

type_synonym ustr = "nat list"

definition str_lit :: "string \<Rightarrow> ustr" where
  "str_lit s = map of_char s"

text \<open>
  \<open>str.strip()\<close> without argument removes leading and trailing white space. CPython
  decides white space with \<open>Py_UNICODE_ISSPACE\<close>: the code points below.
\<close>

definition isspace :: "nat \<Rightarrow> bool" where
  "isspace c \<longleftrightarrow>
     (9 \<le> c \<and> c \<le> 13) \<or> (28 \<le> c \<and> c \<le> 32) \<or> c = 133 \<or> c = 160 \<or> c = 5760 \<or>
     (8192 \<le> c \<and> c \<le> 8202) \<or> c = 8232 \<or> c = 8233 \<or> c = 8239 \<or> c = 8287 \<or>
     c = 12288"

definition strip :: "ustr \<Rightarrow> ustr" where
  "strip s = rev (dropWhile isspace (rev (dropWhile isspace s)))"

text \<open>
  \<open>s.split(" ")\<close> cuts at every single space (code point 32); it never returns an empty
  list, and two adjacent spaces give an empty field.
\<close>

fun split_space :: "ustr \<Rightarrow> ustr list" where
  "split_space [] = [[]]"
| "split_space (c # cs) =
     (if c = 32 then [] # split_space cs
      else (case split_space cs of
              [] \<Rightarrow> [[c]]
            | f # fs \<Rightarrow> (c # f) # fs))"

text \<open>
  Iterating over a text file yields its lines, each with its line feed (code point 10)
  kept; a last line without line feed is yielded as it is. The argument is the decoded
  text of the file.
\<close>

fun file_lines :: "ustr \<Rightarrow> ustr list" where
  "file_lines [] = []"
| "file_lines (c # cs) =
     (if c = 10 then [c] # file_lines cs
      else (case file_lines cs of
              [] \<Rightarrow> [[c]]
            | l # ls \<Rightarrow> (c # l) # ls))"

text \<open>
  The exceptions the code can raise: a missing dictionary key, an index out of range, an
  unpacking of the wrong number of values, and an attribute that the object lacks.
\<close>

datatype py_error = KeyError ustr | IndexError | ValueError | AttributeError

text \<open>\<open>m[k]\<close> on a dictionary.\<close>

definition lookup :: "(ustr \<rightharpoonup> int) \<Rightarrow> ustr \<Rightarrow> py_error + int" where
  "lookup m k = (case m k of None \<Rightarrow> Inl (KeyError k) | Some v \<Rightarrow> Inr v)"

text \<open>
  A Python \<open>set\<close> is enumerated in an order the language leaves open (it depends on the
  hashes and on the insertions made). The order is a parameter of the model: a function
  from the sequence of insertions to the sequence in which the set is enumerated, which
  is free of duplicates and has the same elements. A set value is carried as its
  enumeration.
\<close>

definition set_order :: "(ustr list \<Rightarrow> ustr list) \<Rightarrow> bool" where
  "set_order it \<longleftrightarrow> (\<forall>xs. distinct (it xs) \<and> set (it xs) = set xs)"

text \<open>
  The two dictionary comprehensions over \<open>enumerate(...)\<close>:
  \<open>{data: 1+i for i, data in enumerate(vocab)}\<close> and
  \<open>{1+i: data for i, data in enumerate(vocab)}\<close>; a later entry with the same key
  replaces the earlier one.
\<close>

definition data2id :: "ustr list \<Rightarrow> (ustr \<rightharpoonup> int)" where
  "data2id vs = fold (\<lambda>(i, data) m. m(data \<mapsto> 1 + int i)) (enumerate 0 vs) Map.empty"

definition id2data :: "ustr list \<Rightarrow> (int \<rightharpoonup> ustr)" where
  "id2data vs = fold (\<lambda>(i, data) m. m(1 + int i \<mapsto> data)) (enumerate 0 vs) Map.empty"

section \<open>Vocabulary: \<open>readVocab\<close>\<close>

record vocab_result =
  vocab :: "ustr list"
  vocab2id :: "ustr \<rightharpoonup> int"
  id2vocab :: "int \<rightharpoonup> ustr"
  vocab_size :: int

text \<open>The first loop of \<open>readVocab\<close>: every line of the vocabulary file, stripped.\<close>

fun read_vocab_file :: "ustr list \<Rightarrow> ustr list \<Rightarrow> ustr list" where
  "read_vocab_file acc [] = acc"
| "read_vocab_file acc (line # f) = read_vocab_file (acc @ [strip line]) f"

text \<open>
  The second loop: the first field of every line of \<open>data/train.txt\<close> that is not blank.
  \<open>split\<close> never returns an empty list, so index 0 always exists.
\<close>

fun read_train_file :: "ustr list \<Rightarrow> ustr list \<Rightarrow> ustr list" where
  "read_train_file acc [] = acc"
| "read_train_file acc (line # fp) =
     (if [] \<noteq> strip line
      then read_train_file (acc @ [hd (split_space (strip line))]) fp
      else read_train_file acc fp)"

text \<open>
  \<open>readVocab\<close> of the BERT notebook. \<open>f\<close> are the lines of the file \<open>filepath\<close>,
  \<open>fp\<close> the lines of \<open>data/train.txt\<close>.
\<close>

definition readVocab :: "(ustr list \<Rightarrow> ustr list) \<Rightarrow> ustr list \<Rightarrow> ustr list \<Rightarrow> vocab_result" where
  "readVocab it f fp =
     (let vocab0 = read_train_file (read_vocab_file [] f) fp;
          vocab1 = it vocab0
      in \<lparr> vocab = vocab1, vocab2id = data2id vocab1, id2vocab = id2data vocab1,
           vocab_size = int (length vocab1) \<rparr>)"

section \<open>Sentences and their encoding: \<open>handle\<close>\<close>

definition max_seq_length :: nat where
  "max_seq_length = 202"

text \<open>
  The state of the reading loop of \<open>handle\<close>: the finished sentences (\<open>words\<close>,
  \<open>labels\<close>), the sentence being read (\<open>word\<close>, \<open>label\<close>), and the insertions made
  into the set \<open>label_list\<close>.
\<close>

record read_state =
  rs_words :: "ustr list list"
  rs_labels :: "ustr list list"
  rs_word :: "ustr list"
  rs_label :: "ustr list"
  rs_label_list :: "ustr list"

text \<open>
  One pass of the loop body. A blank line closes the sentence. Any other line is split at
  spaces; \<open>linesplit[1]\<close> raises \<open>IndexError\<close> when the line has a single field.
\<close>

definition read_line :: "read_state \<Rightarrow> ustr \<Rightarrow> py_error + read_state" where
  "read_line s line =
     (if [] = strip line
      then Inr (s\<lparr> rs_words := rs_words s @ [rs_word s],
                   rs_labels := rs_labels s @ [rs_label s],
                   rs_word := [], rs_label := [] \<rparr>)
      else (case split_space (strip line) of
              w # l # _ \<Rightarrow>
                Inr (s\<lparr> rs_word := rs_word s @ [w],
                        rs_label := rs_label s @ [l],
                        rs_label_list := rs_label_list s @ [l] \<rparr>)
            | _ \<Rightarrow> Inl IndexError))"

fun read_lines :: "read_state \<Rightarrow> ustr list \<Rightarrow> py_error + read_state" where
  "read_lines s [] = Inr s"
| "read_lines s (line # fp) =
     (case read_line s line of
        Inl e \<Rightarrow> Inl e
      | Inr s' \<Rightarrow> read_lines s' fp)"

text \<open>\<open>for j in i: input_id.append(vocab2id[j])\<close>: the first missing key raises.\<close>

fun lookup_all :: "(ustr \<rightharpoonup> int) \<Rightarrow> int list \<Rightarrow> ustr list \<Rightarrow> py_error + int list" where
  "lookup_all m acc [] = Inr acc"
| "lookup_all m acc (j # i) =
     (case lookup m j of
        Inl e \<Rightarrow> Inl e
      | Inr v \<Rightarrow> lookup_all m (acc @ [v]) i)"

text \<open>\<open>while len(input_id) < (max_seq_length - 1): input_id.append(0)\<close>\<close>

function pad_zero :: "nat \<Rightarrow> int list \<Rightarrow> int list" where
  "pad_zero n xs = (if length xs < n then pad_zero n (xs @ [0]) else xs)"
  by pat_completeness auto
termination
  by (relation "measure (\<lambda>(n, xs). n - length xs)") auto

declare pad_zero.simps [simp del]

text \<open>
  The body of the two encoding loops, for one sentence \<open>i\<close> and the dictionary \<open>m\<close>
  (\<open>vocab2id\<close> for the words, \<open>label2id\<close> for the labels).
\<close>

definition encode :: "(ustr \<rightharpoonup> int) \<Rightarrow> ustr list \<Rightarrow> py_error + int list" where
  "encode m i =
     (case lookup_all m [] i of
        Inl e \<Rightarrow> Inl e
      | Inr input_id0 \<Rightarrow>
          (let input_id1 =
                 (if length input_id0 > max_seq_length - 2
                  then take (max_seq_length - 2) input_id0 else input_id0)
           in case lookup m (str_lit ''[CLS]'') of
                Inl e \<Rightarrow> Inl e
              | Inr cls \<Rightarrow>
                  (let input_id2 = pad_zero (max_seq_length - 1) (cls # input_id1)
                   in case lookup m (str_lit ''[SEP]'') of
                        Inl e \<Rightarrow> Inl e
                      | Inr sep \<Rightarrow> Inr (input_id2 @ [sep]))))"

fun encode_all :: "(ustr \<rightharpoonup> int) \<Rightarrow> int list list \<Rightarrow> ustr list list \<Rightarrow> py_error + int list list" where
  "encode_all m acc [] = Inr acc"
| "encode_all m acc (i # rest) =
     (case encode m i of
        Inl e \<Rightarrow> Inl e
      | Inr input_id \<Rightarrow> encode_all m (acc @ [input_id]) rest)"

record handle_result =
  words :: "ustr list list"
  labels :: "ustr list list"
  label_list :: "ustr list"
  label2id :: "ustr \<rightharpoonup> int"
  id2label :: "int \<rightharpoonup> ustr"
  label_size :: int
  input_ids :: "int list list"
  label_ids :: "int list list"

text \<open>
  \<open>handle\<close> of the BERT notebook. \<open>v2i\<close> is the global \<open>vocab2id\<close> the function
  reads, \<open>fp\<close> the lines of the file \<open>filepath\<close>.
\<close>

definition handle :: "(ustr list \<Rightarrow> ustr list) \<Rightarrow> (ustr \<rightharpoonup> int) \<Rightarrow> ustr list \<Rightarrow> py_error + handle_result" where
  "handle it v2i fp =
     (case read_lines \<lparr> rs_words = [], rs_labels = [], rs_word = [], rs_label = [],
                        rs_label_list = [str_lit ''[CLS]'', str_lit ''[SEP]''] \<rparr> fp of
        Inl e \<Rightarrow> Inl e
      | Inr s \<Rightarrow>
          (let ll = it (rs_label_list s);
               l2i = data2id ll;
               i2l = id2data ll
           in case encode_all v2i [] (rs_words s) of
                Inl e \<Rightarrow> Inl e
              | Inr iids \<Rightarrow>
                  (case encode_all l2i [] (rs_labels s) of
                     Inl e \<Rightarrow> Inl e
                   | Inr lids \<Rightarrow>
                       Inr \<lparr> words = rs_words s, labels = rs_labels s, label_list = ll,
                             label2id = l2i, id2label = i2l, label_size = int (length ll),
                             input_ids = iids, label_ids = lids \<rparr>)))"

text \<open>
  The lines of a file up to and including its last blank line: the part of the file
  whose sentences are closed. Used to state which lines reach the encoding loops.
\<close>

definition terminated :: "ustr list \<Rightarrow> ustr list" where
  "terminated fp = rev (dropWhile (\<lambda>l. strip l \<noteq> []) (rev fp))"

section \<open>The preprocessing of the ALBERT notebooks\<close>

text \<open>
  The ALBERT notebooks define \<open>max_seq_length\<close>, \<open>readVocab\<close> and \<open>handle\<close> again. They
  are translated on their own here, loop by loop, from that text.
\<close>

definition albert_max_seq_length :: nat where
  "albert_max_seq_length = 202"

fun albert_read_vocab_file :: "ustr list \<Rightarrow> ustr list \<Rightarrow> ustr list" where
  "albert_read_vocab_file acc [] = acc"
| "albert_read_vocab_file acc (line # f) = albert_read_vocab_file (acc @ [strip line]) f"

fun albert_read_train_file :: "ustr list \<Rightarrow> ustr list \<Rightarrow> ustr list" where
  "albert_read_train_file acc [] = acc"
| "albert_read_train_file acc (line # fp) =
     (if [] \<noteq> strip line
      then albert_read_train_file (acc @ [hd (split_space (strip line))]) fp
      else albert_read_train_file acc fp)"

definition albert_readVocab :: "(ustr list \<Rightarrow> ustr list) \<Rightarrow> ustr list \<Rightarrow> ustr list \<Rightarrow> vocab_result" where
  "albert_readVocab it f fp =
     (let vocab0 = albert_read_train_file (albert_read_vocab_file [] f) fp;
          vocab1 = it vocab0
      in \<lparr> vocab = vocab1, vocab2id = data2id vocab1, id2vocab = id2data vocab1,
           vocab_size = int (length vocab1) \<rparr>)"

definition albert_read_line :: "read_state \<Rightarrow> ustr \<Rightarrow> py_error + read_state" where
  "albert_read_line s line =
     (if [] = strip line
      then Inr (s\<lparr> rs_words := rs_words s @ [rs_word s],
                   rs_labels := rs_labels s @ [rs_label s],
                   rs_word := [], rs_label := [] \<rparr>)
      else (case split_space (strip line) of
              w # l # _ \<Rightarrow>
                Inr (s\<lparr> rs_word := rs_word s @ [w],
                        rs_label := rs_label s @ [l],
                        rs_label_list := rs_label_list s @ [l] \<rparr>)
            | _ \<Rightarrow> Inl IndexError))"

fun albert_read_lines :: "read_state \<Rightarrow> ustr list \<Rightarrow> py_error + read_state" where
  "albert_read_lines s [] = Inr s"
| "albert_read_lines s (line # fp) =
     (case albert_read_line s line of
        Inl e \<Rightarrow> Inl e
      | Inr s' \<Rightarrow> albert_read_lines s' fp)"

fun albert_lookup_all :: "(ustr \<rightharpoonup> int) \<Rightarrow> int list \<Rightarrow> ustr list \<Rightarrow> py_error + int list" where
  "albert_lookup_all m acc [] = Inr acc"
| "albert_lookup_all m acc (j # i) =
     (case lookup m j of
        Inl e \<Rightarrow> Inl e
      | Inr v \<Rightarrow> albert_lookup_all m (acc @ [v]) i)"

function albert_pad_zero :: "nat \<Rightarrow> int list \<Rightarrow> int list" where
  "albert_pad_zero n xs = (if length xs < n then albert_pad_zero n (xs @ [0]) else xs)"
  by pat_completeness auto
termination
  by (relation "measure (\<lambda>(n, xs). n - length xs)") auto

declare albert_pad_zero.simps [simp del]

definition albert_encode :: "(ustr \<rightharpoonup> int) \<Rightarrow> ustr list \<Rightarrow> py_error + int list" where
  "albert_encode m i =
     (case albert_lookup_all m [] i of
        Inl e \<Rightarrow> Inl e
      | Inr input_id0 \<Rightarrow>
          (let input_id1 =
                 (if length input_id0 > albert_max_seq_length - 2
                  then take (albert_max_seq_length - 2) input_id0 else input_id0)
           in case lookup m (str_lit ''[CLS]'') of
                Inl e \<Rightarrow> Inl e
              | Inr cls \<Rightarrow>
                  (let input_id2 = albert_pad_zero (albert_max_seq_length - 1) (cls # input_id1)
                   in case lookup m (str_lit ''[SEP]'') of
                        Inl e \<Rightarrow> Inl e
                      | Inr sep \<Rightarrow> Inr (input_id2 @ [sep]))))"

fun albert_encode_all :: "(ustr \<rightharpoonup> int) \<Rightarrow> int list list \<Rightarrow> ustr list list \<Rightarrow> py_error + int list list" where
  "albert_encode_all m acc [] = Inr acc"
| "albert_encode_all m acc (i # rest) =
     (case albert_encode m i of
        Inl e \<Rightarrow> Inl e
      | Inr input_id \<Rightarrow> albert_encode_all m (acc @ [input_id]) rest)"

definition albert_handle :: "(ustr list \<Rightarrow> ustr list) \<Rightarrow> (ustr \<rightharpoonup> int) \<Rightarrow> ustr list \<Rightarrow> py_error + handle_result" where
  "albert_handle it v2i fp =
     (case albert_read_lines \<lparr> rs_words = [], rs_labels = [], rs_word = [], rs_label = [],
                        rs_label_list = [str_lit ''[CLS]'', str_lit ''[SEP]''] \<rparr> fp of
        Inl e \<Rightarrow> Inl e
      | Inr s \<Rightarrow>
          (let ll = it (rs_label_list s);
               l2i = data2id ll;
               i2l = id2data ll
           in case albert_encode_all v2i [] (rs_words s) of
                Inl e \<Rightarrow> Inl e
              | Inr iids \<Rightarrow>
                  (case albert_encode_all l2i [] (rs_labels s) of
                     Inl e \<Rightarrow> Inl e
                   | Inr lids \<Rightarrow>
                       Inr \<lparr> words = rs_words s, labels = rs_labels s, label_list = ll,
                             label2id = l2i, id2label = i2l, label_size = int (length ll),
                             input_ids = iids, label_ids = lids \<rparr>)))"

section \<open>The data set: \<open>BertNerDataset\<close>\<close>

text \<open>
  The two stored tensors are two-dimensional tensors of integers, carried as their rows.
  \<open>t[index, :]\<close> takes row \<open>index\<close>; a negative index counts from the end, and an index
  outside the rows raises \<open>IndexError\<close>.
\<close>

record BertNerDataset =
  ds_label_ids :: "int list list"
  ds_input_ids :: "int list list"

definition tensor_row :: "int list list \<Rightarrow> int \<Rightarrow> py_error + int list" where
  "tensor_row t index =
     (let n = int (length t);
          j = (if index < 0 then index + n else index)
      in if 0 \<le> j \<and> j < n then Inr (t ! nat j) else Inl IndexError)"

definition BertNerDataset_init :: "int list list \<Rightarrow> int list list \<Rightarrow> BertNerDataset" where
  "BertNerDataset_init input_ids0 label_ids0 =
     \<lparr> ds_label_ids = label_ids0, ds_input_ids = input_ids0 \<rparr>"

text \<open>
  The methods take the object and return it with their result, so that what they leave in
  the object can be stated.
\<close>

definition BertNerDataset_len :: "BertNerDataset \<Rightarrow> BertNerDataset \<times> int" where
  "BertNerDataset_len self = (self, int (length (ds_input_ids self)))"

definition BertNerDataset_getitem ::
  "BertNerDataset \<Rightarrow> int \<Rightarrow> BertNerDataset \<times> (py_error + int list \<times> int list)" where
  "BertNerDataset_getitem self index =
     (self,
      case tensor_row (ds_input_ids self) index of
        Inl e \<Rightarrow> Inl e
      | Inr a \<Rightarrow>
          (case tensor_row (ds_label_ids self) index of
             Inl e \<Rightarrow> Inl e
           | Inr b \<Rightarrow> Inr (a, b)))"

section \<open>The model classes\<close>

text \<open>
  The layers are library code. The tensors are values of a type \<open>'t\<close> and the layers and
  tensor operations are the fields of a record, about which nothing is assumed: the
  encoder returns the pair (sequence output, pooled output), the recurrent layers and the
  attention layer return the output with a second component that every \<open>forward\<close>
  discards, \<open>crf\<close> is the call of the CRF module with \<open>reduction='mean'\<close>, and
  \<open>uniform\<close> stands for \<open>torch.empty\<close> followed by \<open>nn.init.uniform_\<close> with the bounds
  \<open>-std\<close> and \<open>std\<close> computed from \<open>embed_dim\<close>: it draws from the random generator,
  whose state \<open>'g\<close> it takes and returns.
\<close>

record ('t, 'g) torch =
  bert :: "'t \<Rightarrow> 't \<times> 't"
  albert :: "'t \<Rightarrow> 't \<times> 't"
  bilstm :: "'t \<Rightarrow> 't \<times> 't"
  bigru :: "'t \<Rightarrow> 't \<times> 't"
  multihead :: "'t \<Rightarrow> 't \<Rightarrow> 't \<Rightarrow> 't \<times> 't"
  crf :: "'t \<Rightarrow> 't \<Rightarrow> 't"
  crf_decode :: "'t \<Rightarrow> int list list"
  permute :: "nat list \<Rightarrow> 't \<Rightarrow> 't"
  neg :: "'t \<Rightarrow> 't"
  matmul :: "'t \<Rightarrow> 't \<Rightarrow> 't"
  shape :: "'t \<Rightarrow> nat list"
  embed_dim :: nat
  uniform :: "'g \<Rightarrow> nat list \<Rightarrow> nat \<Rightarrow> 't \<times> 'g"

text \<open>What \<open>forward\<close> returns: the decoded tag lists, or the loss tensor.\<close>

datatype 't forward_result = Decoded "int list list" | Loss 't

text \<open>
  A value that a variable of \<open>forward\<close> can hold: a tensor, or the pair an encoder
  returns. A recurrent layer reads \<open>input.size(...)\<close>, which a tuple does not have.
\<close>

datatype 't pyval = Tensor 't | Tuple2 't 't

definition call_rnn :: "('t \<Rightarrow> 't \<times> 't) \<Rightarrow> 't pyval \<Rightarrow> py_error + 't \<times> 't" where
  "call_rnn layer v = (case v of Tensor t \<Rightarrow> Inr (layer t) | Tuple2 _ _ \<Rightarrow> Inl AttributeError)"

definition BertCRFNer_forward :: "('t, 'g) torch \<Rightarrow> 't \<Rightarrow> 't option \<Rightarrow> py_error + 't forward_result" where
  "BertCRFNer_forward T x tags =
     (let (y, _) = bert T x
      in case tags of
           None \<Rightarrow> Inr (Decoded (crf_decode T (permute T [1, 0, 2] y)))
         | Some tg \<Rightarrow> Inr (Loss (neg T (crf T y tg))))"

definition BertBiLSTMCRFNer_forward :: "('t, 'g) torch \<Rightarrow> 't \<Rightarrow> 't option \<Rightarrow> py_error + 't forward_result" where
  "BertBiLSTMCRFNer_forward T x tags =
     (let (y, _) = bert T x
      in case call_rnn (bilstm T) (Tensor y) of
           Inl e \<Rightarrow> Inl e
         | Inr (out, _) \<Rightarrow>
             (case tags of
                None \<Rightarrow> Inr (Decoded (crf_decode T (permute T [1, 0, 2] out)))
              | Some tg \<Rightarrow> Inr (Loss (neg T (crf T out tg)))))"

definition BertBiGRUCRFNer_forward :: "('t, 'g) torch \<Rightarrow> 't \<Rightarrow> 't option \<Rightarrow> py_error + 't forward_result" where
  "BertBiGRUCRFNer_forward T x tags =
     (let (y, _) = bert T x
      in case call_rnn (bigru T) (Tensor y) of
           Inl e \<Rightarrow> Inl e
         | Inr (out, _) \<Rightarrow>
             (case tags of
                None \<Rightarrow> Inr (Decoded (crf_decode T (permute T [1, 0, 2] out)))
              | Some tg \<Rightarrow> Inr (Loss (neg T (crf T out tg)))))"

text \<open>
  \<open>SelfAttention.forward\<close>: the three weights are made and drawn inside the call, in
  this order, and the generator's state after the call is returned with the output.
\<close>

definition SelfAttention_forward :: "('t, 'g) torch \<Rightarrow> 'g \<Rightarrow> 't \<Rightarrow> py_error + 't \<times> 'g" where
  "SelfAttention_forward T g x =
     (case shape T x of
        [L, N, E] \<Rightarrow>
          (let (W1, g1) = uniform T g [L, N, N] (embed_dim T);
               (W2, g2) = uniform T g1 [L, N, N] (embed_dim T);
               (W3, g3) = uniform T g2 [L, N, N] (embed_dim T);
               query = matmul T W1 x;
               key = matmul T W2 x;
               val = matmul T W3 x;
               (attn_output, _) = multihead T query key val
           in Inr (attn_output, g3))
      | _ \<Rightarrow> Inl ValueError)"

definition BertBiGRUSelfAttentionCRFNer_forward ::
  "('t, 'g) torch \<Rightarrow> 'g \<Rightarrow> 't \<Rightarrow> 't option \<Rightarrow> py_error + 't forward_result \<times> 'g" where
  "BertBiGRUSelfAttentionCRFNer_forward T g x tags =
     (let (y, _) = bert T x
      in case call_rnn (bigru T) (Tensor y) of
           Inl e \<Rightarrow> Inl e
         | Inr (out0, _) \<Rightarrow>
             (case SelfAttention_forward T g out0 of
                Inl e \<Rightarrow> Inl e
              | Inr (out, g') \<Rightarrow>
                  (case tags of
                     None \<Rightarrow> Inr (Decoded (crf_decode T (permute T [1, 0, 2] out)), g')
                   | Some tg \<Rightarrow> Inr (Loss (neg T (crf T out tg)), g'))))"

definition AlBertCRFNer_forward :: "('t, 'g) torch \<Rightarrow> 't \<Rightarrow> 't option \<Rightarrow> py_error + 't forward_result" where
  "AlBertCRFNer_forward T x tags =
     (let (y, _) = albert T x
      in case tags of
           None \<Rightarrow> Inr (Decoded (crf_decode T (permute T [1, 0, 2] y)))
         | Some tg \<Rightarrow> Inr (Loss (neg T (crf T y tg))))"

definition AlBertBiLSTMCRFNer_forward :: "('t, 'g) torch \<Rightarrow> 't \<Rightarrow> 't option \<Rightarrow> py_error + 't forward_result" where
  "AlBertBiLSTMCRFNer_forward T x tags =
     (let (y, _) = albert T x
      in case call_rnn (bilstm T) (Tensor y) of
           Inl e \<Rightarrow> Inl e
         | Inr (out, _) \<Rightarrow>
             (case tags of
                None \<Rightarrow> Inr (Decoded (crf_decode T (permute T [1, 0, 2] out)))
              | Some tg \<Rightarrow> Inr (Loss (neg T (crf T out tg)))))"

definition AlBertBiGRUCRFNer_forward :: "('t, 'g) torch \<Rightarrow> 't \<Rightarrow> 't option \<Rightarrow> py_error + 't forward_result" where
  "AlBertBiGRUCRFNer_forward T x tags =
     (let (y, _) = albert T x
      in case call_rnn (bigru T) (Tensor y) of
           Inl e \<Rightarrow> Inl e
         | Inr (out, _) \<Rightarrow>
             (case tags of
                None \<Rightarrow> Inr (Decoded (crf_decode T (permute T [1, 0, 2] out)))
              | Some tg \<Rightarrow> Inr (Loss (neg T (crf T out tg)))))"

text \<open>
  \<open>AlBertBiGRUSelfAttentionCRFNer.forward\<close> of \<open>albert-ner.ipynb\<close> binds \<open>y\<close> to all
  that the encoder returns (\<open>y = self.albert(x)\<close>, without unpacking) and passes it to
  the recurrent layer.
\<close>

definition AlBertBiGRUSelfAttentionCRFNer_forward ::
  "('t, 'g) torch \<Rightarrow> 'g \<Rightarrow> 't \<Rightarrow> 't option \<Rightarrow> py_error + 't forward_result \<times> 'g" where
  "AlBertBiGRUSelfAttentionCRFNer_forward T g x tags =
     (let y = (case albert T x of (a, b) \<Rightarrow> Tuple2 a b)
      in case call_rnn (bigru T) y of
           Inl e \<Rightarrow> Inl e
         | Inr (out0, _) \<Rightarrow>
             (case SelfAttention_forward T g out0 of
                Inl e \<Rightarrow> Inl e
              | Inr (out, g') \<Rightarrow>
                  (case tags of
                     None \<Rightarrow> Inr (Decoded (crf_decode T (permute T [1, 0, 2] out)), g')
                   | Some tg \<Rightarrow> Inr (Loss (neg T (crf T out tg)), g'))))"

section \<open>Sample files\<close>

text \<open>
  A vocabulary file with three entries, and a training file with one closed sentence of
  two tokens followed by one line that no blank line closes.
\<close>

definition sample_vocab :: "ustr list" where
  "sample_vocab =
     file_lines (str_lit ''[CLS]'' @ [10] @ str_lit ''[SEP]'' @ [10] @ str_lit ''[PAD]'' @ [10])"

definition sample_train :: "ustr list" where
  "sample_train =
     file_lines (str_lit ''a O'' @ [10] @ str_lit ''b B-LOC'' @ [10] @ [10] @ str_lit ''a O'' @ [10])"

text \<open>
  Three more training files: one whose second line has a single field, one with a single
  line that no blank line closes, and one with a closed sentence whose token \<open>x\<close> is
  in no vocabulary file above.
\<close>

definition sample_one_field :: "ustr list" where
  "sample_one_field = file_lines (str_lit ''a O'' @ [10] @ str_lit ''b'' @ [10] @ [10])"

definition sample_open :: "ustr list" where
  "sample_open = file_lines (str_lit ''x O'' @ [10])"

definition sample_unknown :: "ustr list" where
  "sample_unknown = file_lines (str_lit ''x O'' @ [10] @ [10])"

text \<open>
  A library to run \<open>SelfAttention.forward\<close> on: tensors and generator states are
  integers, every tensor has three axes, a draw returns the generator state as the
  tensor and advances the state by one, and the attention layer combines its three
  arguments so that each of them shows in the output.
\<close>

definition sample_torch :: "(int, int) torch" where
  "sample_torch =
     \<lparr> bert = (\<lambda>x. (x, x)), albert = (\<lambda>x. (x, x)),
       bilstm = (\<lambda>x. (x, x)), bigru = (\<lambda>x. (x, x)),
       multihead = (\<lambda>q k v. (q + 10 * k + 100 * v, 0)),
       crf = (\<lambda>e t. e + t), crf_decode = (\<lambda>e. [[e]]),
       permute = (\<lambda>axes e. e), neg = (\<lambda>e. - e),
       matmul = (\<lambda>w x. w + x), shape = (\<lambda>x. [2, 3, 4]),
       embed_dim = 4, uniform = (\<lambda>g sh d. (g, g + 1)) \<rparr>"

section \<open>Properties of the loops\<close>

lemma fold_data2id_notin:
  "k \<notin> set vs \<Longrightarrow>
   fold (\<lambda>(i, data) m. m(data \<mapsto> 1 + int i)) (enumerate n vs) m0 k = m0 k"
  by (induction vs arbitrary: n m0) auto

lemma fold_data2id_nth:
  "distinct vs \<Longrightarrow> i < length vs \<Longrightarrow>
   fold (\<lambda>(i, data) m. m(data \<mapsto> 1 + int i)) (enumerate n vs) m0 (vs ! i) = Some (1 + int (n + i))"
proof (induction vs arbitrary: n m0 i)
  case Nil
  then show ?case by simp
next
  case (Cons v vs)
  show ?case
  proof (cases i)
    case 0
    have "fold (\<lambda>(i, data) m. m(data \<mapsto> 1 + int i)) (enumerate n (v # vs)) m0 ((v # vs) ! i)
        = fold (\<lambda>(i, data) m. m(data \<mapsto> 1 + int i)) (enumerate (Suc n) vs) (m0(v \<mapsto> 1 + int n)) v"
      using 0 by simp
    also have "\<dots> = (m0(v \<mapsto> 1 + int n)) v"
      using Cons.prems by (intro fold_data2id_notin) simp
    also have "\<dots> = Some (1 + int (n + i))"
      using 0 by simp
    finally show ?thesis .
  next
    case (Suc j)
    with Cons.prems Cons.IH [of j "Suc n"] show ?thesis by simp
  qed
qed

lemma data2id_nth:
  "distinct vs \<Longrightarrow> i < length vs \<Longrightarrow> data2id vs (vs ! i) = Some (1 + int i)"
  using fold_data2id_nth [of vs i 0 Map.empty] by (simp add: data2id_def)

lemma data2id_notin: "k \<notin> set vs \<Longrightarrow> data2id vs k = None"
  using fold_data2id_notin [of k vs 0 Map.empty] by (simp add: data2id_def)

lemma fold_data2id_dom:
  "dom (fold (\<lambda>(i, data) m. m(data \<mapsto> 1 + int i)) (enumerate n vs) m0) = dom m0 \<union> set vs"
  by (induction vs arbitrary: n m0) auto

lemma dom_data2id: "dom (data2id vs) = set vs"
  by (simp add: data2id_def fold_data2id_dom)

lemma ran_data2id:
  assumes "distinct vs"
  shows "ran (data2id vs) = {1 .. int (length vs)}"
proof (rule set_eqI)
  fix v
  show "v \<in> ran (data2id vs) \<longleftrightarrow> v \<in> {1 .. int (length vs)}"
  proof
    assume "v \<in> ran (data2id vs)"
    then obtain k where k: "data2id vs k = Some v" by (auto simp: ran_def)
    then have "k \<in> set vs" using dom_data2id [of vs] by blast
    then obtain i where i: "i < length vs" "vs ! i = k" by (auto simp: in_set_conv_nth)
    with assms k data2id_nth [of vs i] have "v = 1 + int i" by simp
    with i show "v \<in> {1 .. int (length vs)}" by simp
  next
    assume v: "v \<in> {1 .. int (length vs)}"
    define i where "i = nat (v - 1)"
    from v have i: "i < length vs" "v = 1 + int i" by (auto simp: i_def)
    with assms data2id_nth [of vs i] show "v \<in> ran (data2id vs)"
      by (auto simp: ran_def)
  qed
qed

lemma inj_data2id:
  assumes "distinct vs"
  shows "inj_on (data2id vs) (set vs)"
proof (rule inj_onI)
  fix a b
  assume a: "a \<in> set vs" and b: "b \<in> set vs" and eq: "data2id vs a = data2id vs b"
  from a obtain i where i: "i < length vs" "vs ! i = a" by (auto simp: in_set_conv_nth)
  from b obtain j where j: "j < length vs" "vs ! j = b" by (auto simp: in_set_conv_nth)
  from assms i j eq data2id_nth [of vs i] data2id_nth [of vs j] have "i = j" by simp
  with i j show "a = b" by simp
qed


lemma pad_zero_eq: "pad_zero n xs = xs @ replicate (n - length xs) 0"
proof (induction n xs rule: pad_zero.induct)
  case (1 n xs)
  show ?case
  proof (cases "length xs < n")
    case True
    then have "n - length xs = Suc (n - Suc (length xs))" by simp
    with True "1" show ?thesis
      by (subst pad_zero.simps) (simp add: replicate_append_same)
  next
    case False
    then show ?thesis by (subst pad_zero.simps) simp
  qed
qed

lemma lookup_all_Inr:
  "lookup_all m acc i = Inr r \<longleftrightarrow> set i \<subseteq> dom m \<and> r = acc @ map (\<lambda>j. the (m j)) i"
  by (induction i arbitrary: acc) (auto simp: lookup_def split: option.splits)

lemma read_vocab_file_eq: "read_vocab_file acc f = acc @ map strip f"
  by (induction f arbitrary: acc) auto

lemma read_train_file_eq:
  "read_train_file acc fp =
     acc @ map (\<lambda>l. hd (split_space (strip l))) (filter (\<lambda>l. strip l \<noteq> []) fp)"
  by (induction fp arbitrary: acc) auto

lemma split_space_not_Nil: "split_space s \<noteq> []"
  by (induction s) (auto split: list.splits)

lemma encode_Inr:
  "encode m i = Inr r \<longleftrightarrow>
     set i \<subseteq> dom m \<and> str_lit ''[CLS]'' \<in> dom m \<and> str_lit ''[SEP]'' \<in> dom m \<and>
     r = the (m (str_lit ''[CLS]'')) # take (max_seq_length - 2) (map (\<lambda>j. the (m j)) i)
           @ replicate (max_seq_length - 2 - length i) 0 @ [the (m (str_lit ''[SEP]''))]"
proof (cases "lookup_all m [] i")
  case (Inl e)
  then have "\<not> set i \<subseteq> dom m"
    using lookup_all_Inr [of m "[]" i] by (metis Inl_Inr_False)
  with Inl show ?thesis by (simp add: encode_def)
next
  case (Inr ids)
  then have i: "set i \<subseteq> dom m" and ids: "ids = map (\<lambda>j. the (m j)) i"
    using lookup_all_Inr [of m "[]" i ids] by simp_all
  have len: "length ids = length i" by (simp add: ids)
  have pad: "pad_zero (max_seq_length - 1)
        (c # (if max_seq_length - 2 < length ids then take (max_seq_length - 2) ids else ids))
      = c # take (max_seq_length - 2) ids @ replicate (max_seq_length - 2 - length i) 0" for c
    by (simp add: pad_zero_eq max_seq_length_def len min_def)
  show ?thesis
  proof (cases "m (str_lit ''[CLS]'')")
    case None
    then show ?thesis by (auto simp: encode_def Inr lookup_def)
  next
    case cls: (Some c)
    show ?thesis
    proof (cases "m (str_lit ''[SEP]'')")
      case None
      then show ?thesis by (auto simp: encode_def Inr lookup_def cls)
    next
      case sep: (Some d)
      have e: "encode m i = Inr (pad_zero (max_seq_length - 1)
          (c # (if max_seq_length - 2 < length ids then take (max_seq_length - 2) ids else ids)) @ [d])"
        by (simp add: encode_def Inr lookup_def cls sep)
      show ?thesis
        unfolding e pad using i cls sep by (auto simp: ids)
    qed
  qed
qed

lemma encode_all_Inr:
  "encode_all m acc ws = Inr r \<longleftrightarrow>
     (\<forall>w \<in> set ws. \<exists>x. encode m w = Inr x) \<and>
     r = acc @ map (\<lambda>w. projr (encode m w)) ws"
  by (induction ws arbitrary: acc) (auto split: sum.splits)

lemma read_line_ok:
  "(\<exists>s'. read_line s l = Inr s') \<longleftrightarrow> (strip l \<noteq> [] \<longrightarrow> 2 \<le> length (split_space (strip l)))"
  by (auto simp: read_line_def split: list.splits)

lemma read_lines_ok:
  "(\<exists>s'. read_lines s fp = Inr s') \<longleftrightarrow>
     (\<forall>l \<in> set fp. strip l \<noteq> [] \<longrightarrow> 2 \<le> length (split_space (strip l)))"
proof (induction fp arbitrary: s)
  case Nil
  show ?case by simp
next
  case (Cons l fp)
  show ?case
  proof (cases "read_line s l")
    case (Inl e)
    with read_line_ok [of s l] show ?thesis by auto
  next
    case (Inr s1)
    with read_line_ok [of s l] Cons.IH [of s1] show ?thesis by auto
  qed
qed

lemma read_lines_error: "read_lines s fp = Inl e \<Longrightarrow> e = IndexError"
  by (induction fp arbitrary: s) (auto simp: read_line_def split: sum.splits if_splits list.splits)

lemma read_lines_append:
  "read_lines s (xs @ ys) =
     (case read_lines s xs of Inl e \<Rightarrow> Inl e | Inr s' \<Rightarrow> read_lines s' ys)"
  by (induction xs arbitrary: s) (auto split: sum.splits)

lemma read_lines_count:
  "read_lines s fp = Inr s' \<Longrightarrow>
     length (rs_words s') = length (rs_words s) + length (filter (\<lambda>l. strip l = []) fp) \<and>
     length (rs_labels s') = length (rs_labels s) + length (filter (\<lambda>l. strip l = []) fp)"
  by (induction fp arbitrary: s)
     (auto simp: read_line_def split: sum.splits if_splits list.splits)

lemma read_lines_open:
  "read_lines s fp = Inr s' \<Longrightarrow> \<forall>l \<in> set fp. strip l \<noteq> [] \<Longrightarrow>
     rs_words s' = rs_words s \<and> rs_labels s' = rs_labels s"
  by (induction fp arbitrary: s)
     (auto simp: read_line_def split: sum.splits if_splits list.splits)

lemma read_lines_tokens:
  "read_lines s fp = Inr s' \<Longrightarrow>
     concat (rs_words s') @ rs_word s' = concat (rs_words s) @ rs_word s @ read_train_file [] fp"
proof (induction fp arbitrary: s)
  case Nil
  then show ?case by simp
next
  case (Cons l fp)
  from Cons.prems obtain s1 where s1: "read_line s l = Inr s1" and r: "read_lines s1 fp = Inr s'"
    by (auto split: sum.splits)
  from s1 have "concat (rs_words s1) @ rs_word s1 =
      concat (rs_words s) @ rs_word s @ (if strip l = [] then [] else [hd (split_space (strip l))])"
    by (auto simp: read_line_def split: if_splits list.splits)
  with Cons.IH [OF r] show ?case
    by (simp add: read_train_file_eq)
qed

lemma read_lines_closed:
  "read_lines s (fp @ [l]) = Inr s' \<Longrightarrow> strip l = [] \<Longrightarrow> rs_word s' = [] \<and> rs_label s' = []"
  by (auto simp: read_lines_append read_line_def split: sum.splits)

lemma read_line_labels:
  assumes "read_line s l = Inr s1"
    and "set (concat (rs_labels s)) \<union> set (rs_label s) \<subseteq> set (rs_label_list s)"
  shows "set (concat (rs_labels s1)) \<union> set (rs_label s1) \<subseteq> set (rs_label_list s1)"
proof (cases "[] = strip l")
  case True
  with assms(1) have "s1 = s\<lparr> rs_words := rs_words s @ [rs_word s],
      rs_labels := rs_labels s @ [rs_label s], rs_word := [], rs_label := [] \<rparr>"
    by (simp add: read_line_def)
  with assms(2) show ?thesis by auto
next
  case False
  with assms(1) obtain w lb rest where "split_space (strip l) = w # lb # rest"
    and s1: "s1 = s\<lparr> rs_word := rs_word s @ [w], rs_label := rs_label s @ [lb],
      rs_label_list := rs_label_list s @ [lb] \<rparr>"
    by (auto simp: read_line_def split: list.splits)
  with assms(2) show ?thesis by auto
qed

lemma read_lines_labels:
  "read_lines s fp = Inr s' \<Longrightarrow>
     set (concat (rs_labels s)) \<union> set (rs_label s) \<subseteq> set (rs_label_list s) \<Longrightarrow>
     set (concat (rs_labels s')) \<union> set (rs_label s') \<subseteq> set (rs_label_list s')"
proof (induction fp arbitrary: s)
  case Nil
  then show ?case by simp
next
  case (Cons l fp)
  from Cons.prems(1) obtain s1 where s1: "read_line s l = Inr s1" and r: "read_lines s1 fp = Inr s'"
    by (auto split: sum.splits)
  from Cons.IH [OF r read_line_labels [OF s1 Cons.prems(2)]] show ?case .
qed

lemma read_lines_label_list:
  "read_lines s fp = Inr s' \<Longrightarrow>
     rs_label_list s' = rs_label_list s @
       map (\<lambda>l. split_space (strip l) ! 1) (filter (\<lambda>l. strip l \<noteq> []) fp)"
proof (induction fp arbitrary: s)
  case Nil
  then show ?case by simp
next
  case (Cons l fp)
  from Cons.prems obtain s1 where s1: "read_line s l = Inr s1" and r: "read_lines s1 fp = Inr s'"
    by (auto split: sum.splits)
  from s1 have "rs_label_list s1 = rs_label_list s @
      (if strip l = [] then [] else [split_space (strip l) ! 1])"
    by (auto simp: read_line_def split: if_splits list.splits)
  with Cons.IH [OF r] show ?case by simp
qed

lemma handle_Inr:
  "handle it v2i fp = Inr r \<longleftrightarrow>
     (\<exists>s. read_lines \<lparr> rs_words = [], rs_labels = [], rs_word = [], rs_label = [],
                        rs_label_list = [str_lit ''[CLS]'', str_lit ''[SEP]''] \<rparr> fp = Inr s \<and>
          (\<forall>w \<in> set (rs_words s). \<exists>x. encode v2i w = Inr x) \<and>
          (\<forall>w \<in> set (rs_labels s). \<exists>x. encode (data2id (it (rs_label_list s))) w = Inr x) \<and>
          r = \<lparr> words = rs_words s, labels = rs_labels s, label_list = it (rs_label_list s),
                label2id = data2id (it (rs_label_list s)), id2label = id2data (it (rs_label_list s)),
                label_size = int (length (it (rs_label_list s))),
                input_ids = map (\<lambda>w. projr (encode v2i w)) (rs_words s),
                label_ids = map (\<lambda>w. projr (encode (data2id (it (rs_label_list s))) w)) (rs_labels s) \<rparr>)"
proof -
  have no: "\<not> (\<forall>w \<in> set ws. \<exists>x. encode m w = Inr x)" if "encode_all m [] ws = Inl e" for m ws e
    using that encode_all_Inr [of m "[]" ws] by (metis Inl_Inr_False)
  show ?thesis
    unfolding handle_def
    by (auto simp: Let_def encode_all_Inr split: sum.splits dest: no)
qed

lemma set_orderD: "set_order it \<Longrightarrow> distinct (it xs) \<and> set (it xs) = set xs"
  by (simp add: set_order_def)

lemma set_order_remdups: "set_order remdups"
  by (simp add: set_order_def)

lemma data2id_facts:
  assumes "distinct vs"
  shows "dom (data2id vs) = set vs \<and>
         inj_on (data2id vs) (dom (data2id vs)) \<and>
         ran (data2id vs) = {1 .. int (card (dom (data2id vs)))} \<and>
         (\<forall>i < length vs. data2id vs (vs ! i) = Some (1 + int i))"
  using assms
  by (simp add: dom_data2id inj_data2id ran_data2id distinct_card data2id_nth)

lemma handle_label_list:
  assumes "handle it v2i fp = Inr h"
  shows "\<exists>raw. label_list h = it raw \<and> label2id h = data2id (it raw) \<and>
           label_size h = int (length (it raw)) \<and>
           set raw = {str_lit ''[CLS]'', str_lit ''[SEP]''} \<union>
                     {split_space (strip l) ! 1 | l. l \<in> set fp \<and> strip l \<noteq> []} \<and>
           (\<forall>i \<in> set (labels h). set i \<subseteq> set raw)"
proof -
  from assms obtain s where
    s: "read_lines \<lparr> rs_words = [], rs_labels = [], rs_word = [], rs_label = [],
          rs_label_list = [str_lit ''[CLS]'', str_lit ''[SEP]''] \<rparr> fp = Inr s"
    and h: "label_list h = it (rs_label_list s)" "label2id h = data2id (it (rs_label_list s))"
      "label_size h = int (length (it (rs_label_list s)))" "labels h = rs_labels s"
    by (auto simp: handle_Inr)
  from read_lines_label_list [OF s]
  have "set (rs_label_list s) = {str_lit ''[CLS]'', str_lit ''[SEP]''} \<union>
      {split_space (strip l) ! 1 | l. l \<in> set fp \<and> strip l \<noteq> []}"
    by auto
  moreover from read_lines_labels [OF s]
  have "\<forall>i \<in> set (rs_labels s). set i \<subseteq> set (rs_label_list s)"
    by auto
  ultimately show ?thesis using h
    by (intro exI [where x = "rs_label_list s"]) simp
qed

lemma encode_ok:
  "(\<exists>x. encode m i = Inr x) \<longleftrightarrow>
     set i \<subseteq> dom m \<and> str_lit ''[CLS]'' \<in> dom m \<and> str_lit ''[SEP]'' \<in> dom m"
  by (simp add: encode_Inr)

lemma read_lines_init_labels:
  assumes "read_lines \<lparr> rs_words = [], rs_labels = [], rs_word = [], rs_label = [],
          rs_label_list = [str_lit ''[CLS]'', str_lit ''[SEP]''] \<rparr> fp = Inr s"
  shows "str_lit ''[CLS]'' \<in> set (rs_label_list s) \<and> str_lit ''[SEP]'' \<in> set (rs_label_list s) \<and>
         (\<forall>i \<in> set (rs_labels s). set i \<subseteq> set (rs_label_list s))"
  using read_lines_label_list [OF assms] read_lines_labels [OF assms] by auto

lemma handle_returns:
  assumes "set_order it"
  shows "(\<exists>r. handle it v2i fp = Inr r) \<longleftrightarrow>
     (\<exists>s. read_lines \<lparr> rs_words = [], rs_labels = [], rs_word = [], rs_label = [],
                        rs_label_list = [str_lit ''[CLS]'', str_lit ''[SEP]''] \<rparr> fp = Inr s \<and>
          (\<forall>w \<in> set (rs_words s). set w \<subseteq> dom v2i) \<and>
          (rs_words s \<noteq> [] \<longrightarrow> str_lit ''[CLS]'' \<in> dom v2i \<and> str_lit ''[SEP]'' \<in> dom v2i))"
proof -
  have lab: "\<forall>w \<in> set (rs_labels s). \<exists>x. encode (data2id (it (rs_label_list s))) w = Inr x"
    if "read_lines \<lparr> rs_words = [], rs_labels = [], rs_word = [], rs_label = [],
          rs_label_list = [str_lit ''[CLS]'', str_lit ''[SEP]''] \<rparr> fp = Inr s" for s
    using read_lines_init_labels [OF that] set_orderD [OF assms, of "rs_label_list s"]
    by (simp add: encode_ok dom_data2id)
  have w: "(\<forall>w \<in> set ws. \<exists>x. encode v2i w = Inr x) \<longleftrightarrow>
      (\<forall>w \<in> set ws. set w \<subseteq> dom v2i) \<and>
      (ws \<noteq> [] \<longrightarrow> str_lit ''[CLS]'' \<in> dom v2i \<and> str_lit ''[SEP]'' \<in> dom v2i)" for ws
    by (cases ws) (auto simp: encode_ok)
  show ?thesis
    unfolding handle_Inr w [symmetric] using lab by blast
qed

lemma terminated_split:
  "fp = terminated fp @ rev (takeWhile (\<lambda>l. strip l \<noteq> []) (rev fp))"
proof -
  let ?P = "\<lambda>l. strip l \<noteq> []"
  have "rev (dropWhile ?P (rev fp)) @ rev (takeWhile ?P (rev fp)) =
      rev (takeWhile ?P (rev fp) @ dropWhile ?P (rev fp))"
    by (simp only: rev_append)
  also have "\<dots> = fp"
    by (simp only: takeWhile_dropWhile_id rev_rev_ident)
  finally show ?thesis by (simp add: terminated_def)
qed

lemma terminated_last:
  assumes "terminated fp \<noteq> []"
  shows "\<exists>pre l. terminated fp = pre @ [l] \<and> strip l = []"
proof -
  from assms have ne: "dropWhile (\<lambda>l. strip l \<noteq> []) (rev fp) \<noteq> []"
    by (simp add: terminated_def)
  then have "\<not> strip (hd (dropWhile (\<lambda>l. strip l \<noteq> []) (rev fp))) \<noteq> []"
    by (rule hd_dropWhile)
  with ne have "strip (last (terminated fp)) = []"
    by (simp add: terminated_def last_rev)
  with assms show ?thesis
    by (metis append_butlast_last_id)
qed

lemma terminated_subset: "set (terminated fp) \<subseteq> set fp"
  by (auto simp: terminated_def dest: set_dropWhileD)

lemma terminated_Nil_iff: "terminated fp = [] \<longleftrightarrow> (\<forall>l \<in> set fp. strip l \<noteq> [])"
  by (auto simp: terminated_def dropWhile_eq_Nil_conv)

lemma read_lines_terminated:
  assumes "read_lines \<lparr> rs_words = [], rs_labels = [], rs_word = [], rs_label = [],
          rs_label_list = [str_lit ''[CLS]'', str_lit ''[SEP]''] \<rparr> fp = Inr s"
  shows "concat (rs_words s) = read_train_file [] (terminated fp) \<and>
         (rs_words s = [] \<longleftrightarrow> terminated fp = [])"
proof -
  let ?init = "\<lparr> rs_words = [], rs_labels = [], rs_word = [], rs_label = [],
          rs_label_list = [str_lit ''[CLS]'', str_lit ''[SEP]''] \<rparr>"
  let ?tl = "rev (takeWhile (\<lambda>l. strip l \<noteq> []) (rev fp))"
  from assms terminated_split [of fp]
  have "read_lines ?init (terminated fp @ ?tl) = Inr s" by simp
  then obtain s1 where s1: "read_lines ?init (terminated fp) = Inr s1"
    and s: "read_lines s1 ?tl = Inr s"
    by (auto simp: read_lines_append split: sum.splits)
  have "\<forall>l \<in> set ?tl. strip l \<noteq> []"
    by (auto dest: set_takeWhileD)
  from read_lines_open [OF s this] have eq: "rs_words s = rs_words s1" by simp
  show ?thesis
  proof (cases "terminated fp = []")
    case True
    with s1 have "s1 = ?init" by simp
    with eq True show ?thesis by simp
  next
    case False
    from terminated_last [OF False] obtain pre l where
      pl: "terminated fp = pre @ [l]" "strip l = []" by blast
    from s1 pl read_lines_closed [of ?init pre l s1] have "rs_word s1 = []" by simp
    with read_lines_tokens [OF s1] have c: "concat (rs_words s1) = read_train_file [] (terminated fp)"
      by simp
    from read_lines_count [OF s1] pl have "rs_words s1 \<noteq> []" by auto
    with c eq False show ?thesis by simp
  qed
qed

section \<open>The vocabulary\<close>

text \<open>
  Claim C6. The vocabulary that \<open>readVocab\<close> returns is the union of the stripped lines
  of the vocabulary file and the first space-delimited fields of the stripped lines of
  \<open>train.txt\<close> that are not empty, without duplicates, and the returned size is the
  number of elements of that set.
\<close>

theorem readVocab_union:
  assumes "set_order it"
  shows "set (vocab (readVocab it f fp)) =
           strip ` set f \<union> {hd (split_space (strip l)) | l. l \<in> set fp \<and> strip l \<noteq> []} \<and>
         distinct (vocab (readVocab it f fp)) \<and>
         vocab_size (readVocab it f fp) =
           int (card (strip ` set f \<union> {hd (split_space (strip l)) | l. l \<in> set fp \<and> strip l \<noteq> []}))"
proof -
  let ?raw = "read_train_file (read_vocab_file [] f) fp"
  let ?U = "strip ` set f \<union> {hd (split_space (strip l)) | l. l \<in> set fp \<and> strip l \<noteq> []}"
  have raw: "set ?raw = ?U"
    by (auto simp: read_train_file_eq read_vocab_file_eq)
  have v: "vocab (readVocab it f fp) = it ?raw"
    by (simp add: readVocab_def Let_def)
  from assms have d: "distinct (it ?raw)" and s: "set (it ?raw) = set ?raw"
    by (simp_all add: set_orderD)
  have "vocab_size (readVocab it f fp) = int (length (it ?raw))"
    by (simp add: readVocab_def Let_def)
  also have "\<dots> = int (card (set (it ?raw)))"
    using d by (simp add: distinct_card)
  finally show ?thesis
    using d s raw v by simp
qed

theorem readVocab_union_witness:
  "set_order remdups \<and>
   set (vocab (readVocab remdups sample_vocab sample_train)) =
     {str_lit ''[CLS]'', str_lit ''[SEP]'', str_lit ''[PAD]'', str_lit ''a'', str_lit ''b''} \<and>
   vocab_size (readVocab remdups sample_vocab sample_train) = 5"
proof -
  have U: "strip ` set sample_vocab \<union> {hd (split_space (strip l)) | l. l \<in> set sample_train \<and> strip l \<noteq> []}
      = {str_lit ''[CLS]'', str_lit ''[SEP]'', str_lit ''[PAD]'', str_lit ''a'', str_lit ''b''}"
  proof -
    have "strip ` set sample_vocab \<union> {hd (split_space (strip l)) | l. l \<in> set sample_train \<and> strip l \<noteq> []}
      = set (map strip sample_vocab @
             map (\<lambda>l. hd (split_space (strip l))) (filter (\<lambda>l. strip l \<noteq> []) sample_train))"
      by auto
    also have "\<dots> = {str_lit ''[CLS]'', str_lit ''[SEP]'', str_lit ''[PAD]'', str_lit ''a'', str_lit ''b''}"
      by (simp add: sample_vocab_def sample_train_def str_lit_def strip_def isspace_def insert_commute)
    finally show ?thesis .
  qed
  have c: "card {str_lit ''[CLS]'', str_lit ''[SEP]'', str_lit ''[PAD]'', str_lit ''a'', str_lit ''b''} = 5"
    by (simp add: str_lit_def)
  show ?thesis
    using readVocab_union [OF set_order_remdups, of sample_vocab sample_train]
    unfolding U c by (simp add: set_order_remdups)
qed

text \<open>
  Claim C2. \<open>vocab2id\<close> built by \<open>readVocab\<close> and \<open>label2id\<close> built by \<open>handle\<close> are
  injective, their keys are the distinct strings collected, their values are exactly
  \<open>1, \<dots>, N\<close> for \<open>N\<close> keys, and the \<open>i\<close>-th enumerated element gets \<open>1 + i\<close>.
\<close>

theorem id_tables_dense:
  assumes "set_order it"
  shows "(let r = readVocab it f fp in
            distinct (vocab r) \<and>
            dom (vocab2id r) = set (vocab r) \<and>
            set (vocab r) = set (read_train_file (read_vocab_file [] f) fp) \<and>
            inj_on (vocab2id r) (dom (vocab2id r)) \<and>
            ran (vocab2id r) = {1 .. int (card (dom (vocab2id r)))} \<and>
            (\<forall>i < length (vocab r). vocab2id r (vocab r ! i) = Some (1 + int i))) \<and>
         (\<forall>h. handle it v2i fp = Inr h \<longrightarrow>
            distinct (label_list h) \<and>
            dom (label2id h) = set (label_list h) \<and>
            set (label_list h) = {str_lit ''[CLS]'', str_lit ''[SEP]''} \<union>
                {split_space (strip l) ! 1 | l. l \<in> set fp \<and> strip l \<noteq> []} \<and>
            inj_on (label2id h) (dom (label2id h)) \<and>
            ran (label2id h) = {1 .. int (card (dom (label2id h)))} \<and>
            (\<forall>i < length (label_list h). label2id h (label_list h ! i) = Some (1 + int i)))"
proof (rule conjI)
  let ?raw = "read_train_file (read_vocab_file [] f) fp"
  from assms have d: "distinct (it ?raw)" and s: "set (it ?raw) = set ?raw"
    by (simp_all add: set_orderD)
  from data2id_facts [OF d] s
  show "let r = readVocab it f fp in
            distinct (vocab r) \<and>
            dom (vocab2id r) = set (vocab r) \<and>
            set (vocab r) = set (read_train_file (read_vocab_file [] f) fp) \<and>
            inj_on (vocab2id r) (dom (vocab2id r)) \<and>
            ran (vocab2id r) = {1 .. int (card (dom (vocab2id r)))} \<and>
            (\<forall>i < length (vocab r). vocab2id r (vocab r ! i) = Some (1 + int i))"
    using d by (simp add: readVocab_def Let_def dom_data2id)
next
  have "distinct (label_list h) \<and>
            dom (label2id h) = set (label_list h) \<and>
            set (label_list h) = {str_lit ''[CLS]'', str_lit ''[SEP]''} \<union>
                {split_space (strip l) ! 1 | l. l \<in> set fp \<and> strip l \<noteq> []} \<and>
            inj_on (label2id h) (dom (label2id h)) \<and>
            ran (label2id h) = {1 .. int (card (dom (label2id h)))} \<and>
            (\<forall>i < length (label_list h). label2id h (label_list h ! i) = Some (1 + int i))"
    if "handle it v2i fp = Inr h" for h
  proof -
  from handle_label_list [OF that] obtain raw where
    raw: "label_list h = it raw" "label2id h = data2id (it raw)"
      "set raw = {str_lit ''[CLS]'', str_lit ''[SEP]''} \<union>
                     {split_space (strip l) ! 1 | l. l \<in> set fp \<and> strip l \<noteq> []}"
    by blast
  from assms have d: "distinct (it raw)" and s: "set (it raw) = set raw"
    by (simp_all add: set_orderD)
  from data2id_facts [OF d] raw s d
  show ?thesis
    by (simp add: dom_data2id)
  qed
  then show "\<forall>h. handle it v2i fp = Inr h \<longrightarrow>
            distinct (label_list h) \<and>
            dom (label2id h) = set (label_list h) \<and>
            set (label_list h) = {str_lit ''[CLS]'', str_lit ''[SEP]''} \<union>
                {split_space (strip l) ! 1 | l. l \<in> set fp \<and> strip l \<noteq> []} \<and>
            inj_on (label2id h) (dom (label2id h)) \<and>
            ran (label2id h) = {1 .. int (card (dom (label2id h)))} \<and>
            (\<forall>i < length (label_list h). label2id h (label_list h ! i) = Some (1 + int i))"
    by blast
qed

lemma sample_train_lines:
  "sample_train = [[97, 32, 79, 10], [98, 32, 66, 45, 76, 79, 67, 10], [10], [97, 32, 79, 10]]"
  by (simp add: sample_train_def str_lit_def)

lemma sample_vocab_lines:
  "sample_vocab = [[91, 67, 76, 83, 93, 10], [91, 83, 69, 80, 93, 10], [91, 80, 65, 68, 93, 10]]"
  by (simp add: sample_vocab_def str_lit_def)

lemma sample_read:
  "read_lines \<lparr> rs_words = [], rs_labels = [], rs_word = [], rs_label = [],
       rs_label_list = [str_lit ''[CLS]'', str_lit ''[SEP]''] \<rparr> sample_train =
   Inr \<lparr> rs_words = [[[97], [98]]], rs_labels = [[[79], [66, 45, 76, 79, 67]]],
         rs_word = [[97]], rs_label = [[79]],
         rs_label_list = [[91, 67, 76, 83, 93], [91, 83, 69, 80, 93], [79], [66, 45, 76, 79, 67], [79]] \<rparr>"
  by (simp add: sample_train_lines read_line_def strip_def isspace_def str_lit_def)

lemma sample_readVocab:
  "vocab (readVocab remdups sample_vocab sample_train) =
     [[91, 67, 76, 83, 93], [91, 83, 69, 80, 93], [91, 80, 65, 68, 93], [98], [97]]"
  by (simp add: readVocab_def Let_def sample_train_lines sample_vocab_lines strip_def isspace_def)

lemma sample_vocab2id:
  "vocab2id (readVocab remdups sample_vocab sample_train) =
     data2id [[91, 67, 76, 83, 93], [91, 83, 69, 80, 93], [91, 80, 65, 68, 93], [98], [97]]"
  using sample_readVocab by (simp add: readVocab_def Let_def)

lemma sample_handle:
  "\<exists>h. handle remdups (vocab2id (readVocab remdups sample_vocab sample_train)) sample_train = Inr h \<and>
       words h = [[[97], [98]]] \<and> labels h = [[[79], [66, 45, 76, 79, 67]]] \<and>
       label_list h = [[91, 67, 76, 83, 93], [91, 83, 69, 80, 93], [66, 45, 76, 79, 67], [79]]"
proof -
  have "\<exists>h. handle remdups (vocab2id (readVocab remdups sample_vocab sample_train)) sample_train = Inr h"
    unfolding handle_returns [OF set_order_remdups] sample_read sample_vocab2id
    by (simp add: dom_data2id str_lit_def)
  then obtain h where
    h: "handle remdups (vocab2id (readVocab remdups sample_vocab sample_train)) sample_train = Inr h"
    by blast
  then show ?thesis
    by (intro exI [where x = h]) (auto simp: handle_Inr sample_read)
qed

theorem id_tables_dense_witness:
  "set_order remdups \<and>
   ran (vocab2id (readVocab remdups sample_vocab sample_train)) = {1 .. 5} \<and>
   vocab2id (readVocab remdups sample_vocab sample_train) (str_lit ''[CLS]'') = Some 1 \<and>
   (\<exists>h. handle remdups (vocab2id (readVocab remdups sample_vocab sample_train)) sample_train = Inr h \<and>
        ran (label2id h) = {1 .. 4} \<and> label2id h (str_lit ''O'') = Some 4)"
proof -
  let ?V = "vocab2id (readVocab remdups sample_vocab sample_train)"
  from sample_handle obtain h where
    h: "handle remdups ?V sample_train = Inr h"
    and ll: "label_list h = [[91, 67, 76, 83, 93], [91, 83, 69, 80, 93], [66, 45, 76, 79, 67], [79]]"
    by blast
  note T = id_tables_dense [OF set_order_remdups, of sample_vocab sample_train ?V]
  from T have v: "dom ?V = set (vocab (readVocab remdups sample_vocab sample_train))"
    and vr: "ran ?V = {1 .. int (card (dom ?V))}"
    and vi: "\<forall>i < length (vocab (readVocab remdups sample_vocab sample_train)).
        ?V (vocab (readVocab remdups sample_vocab sample_train) ! i) = Some (1 + int i)"
    by (simp_all add: Let_def)
  from T h have l: "dom (label2id h) = set (label_list h)"
    and lr: "ran (label2id h) = {1 .. int (card (dom (label2id h)))}"
    and li: "\<forall>i < length (label_list h). label2id h (label_list h ! i) = Some (1 + int i)"
    by blast+
  have "ran ?V = {1 .. 5}"
    unfolding vr v sample_readVocab by simp
  moreover from vi have "?V (str_lit ''[CLS]'') = Some 1"
    unfolding sample_readVocab by (auto simp: str_lit_def dest: spec [where x = 0])
  moreover have "ran (label2id h) = {1 .. 4}"
    unfolding lr l ll by simp
  moreover from li have "label2id h (str_lit ''O'') = Some 4"
    unfolding ll by (auto simp: str_lit_def dest: spec [where x = 3])
  ultimately show ?thesis
    using h set_order_remdups by blast
qed

lemma handle_encoded:
  assumes "handle it v2i fp = Inr r"
  shows "(\<forall>i \<in> set (words r). \<exists>x. encode v2i i = Inr x) \<and>
         (\<forall>i \<in> set (labels r). \<exists>x. encode (label2id r) i = Inr x) \<and>
         input_ids r = map (\<lambda>i. projr (encode v2i i)) (words r) \<and>
         label_ids r = map (\<lambda>i. projr (encode (label2id r) i)) (labels r)"
  using assms by (auto simp: handle_Inr)

lemma encode_projr:
  assumes "encode m i = Inr x"
  shows "projr (encode m i) =
     the (m (str_lit ''[CLS]'')) # take (max_seq_length - 2) (map (\<lambda>j. the (m j)) i)
       @ replicate (max_seq_length - 2 - length i) 0 @ [the (m (str_lit ''[SEP]''))]"
proof -
  from assms have "x =
     the (m (str_lit ''[CLS]'')) # take (max_seq_length - 2) (map (\<lambda>j. the (m j)) i)
       @ replicate (max_seq_length - 2 - length i) 0 @ [the (m (str_lit ''[SEP]''))]"
    by (simp add: encode_Inr)
  with assms show ?thesis by simp
qed

lemma encode_map:
  assumes "\<forall>i \<in> set ws. \<exists>x. encode m i = Inr x"
  shows "map (\<lambda>i. projr (encode m i)) ws =
     map (\<lambda>i. the (m (str_lit ''[CLS]'')) # take (max_seq_length - 2) (map (\<lambda>j. the (m j)) i)
       @ replicate (max_seq_length - 2 - length i) 0 @ [the (m (str_lit ''[SEP]''))]) ws"
proof (rule map_cong [OF refl])
  fix i assume "i \<in> set ws"
  with assms obtain x where "encode m i = Inr x" by blast
  then show "projr (encode m i) =
     the (m (str_lit ''[CLS]'')) # take (max_seq_length - 2) (map (\<lambda>j. the (m j)) i)
       @ replicate (max_seq_length - 2 - length i) 0 @ [the (m (str_lit ''[SEP]''))]"
    by (rule encode_projr)
qed

lemma handle_layout:
  assumes "handle it v2i fp = Inr r"
  shows "max_seq_length = 202 \<and>
         (\<forall>i \<in> set (words r). set i \<subseteq> dom v2i) \<and>
         (\<forall>i \<in> set (labels r). set i \<subseteq> dom (label2id r)) \<and>
         input_ids r =
           map (\<lambda>i. the (v2i (str_lit ''[CLS]'')) #
                    take (max_seq_length - 2) (map (\<lambda>j. the (v2i j)) i) @
                    replicate (max_seq_length - 2 - length i) 0 @
                    [the (v2i (str_lit ''[SEP]''))]) (words r) \<and>
         label_ids r =
           map (\<lambda>i. the (label2id r (str_lit ''[CLS]'')) #
                    take (max_seq_length - 2) (map (\<lambda>j. the (label2id r j)) i) @
                    replicate (max_seq_length - 2 - length i) 0 @
                    [the (label2id r (str_lit ''[SEP]''))]) (labels r) \<and>
         (\<forall>x \<in> set (input_ids r) \<union> set (label_ids r). length x = max_seq_length)"
proof -
  note e = handle_encoded [OF assms]
  have w: "\<forall>i \<in> set (words r). set i \<subseteq> dom v2i"
    and l: "\<forall>i \<in> set (labels r). set i \<subseteq> dom (label2id r)"
    using e by (simp_all add: encode_ok)
  have i: "input_ids r =
           map (\<lambda>i. the (v2i (str_lit ''[CLS]'')) #
                    take (max_seq_length - 2) (map (\<lambda>j. the (v2i j)) i) @
                    replicate (max_seq_length - 2 - length i) 0 @
                    [the (v2i (str_lit ''[SEP]''))]) (words r)"
    using e by (simp add: encode_map)
  have j: "label_ids r =
           map (\<lambda>i. the (label2id r (str_lit ''[CLS]'')) #
                    take (max_seq_length - 2) (map (\<lambda>j. the (label2id r j)) i) @
                    replicate (max_seq_length - 2 - length i) 0 @
                    [the (label2id r (str_lit ''[SEP]''))]) (labels r)"
    using e by (simp add: encode_map)
  have len: "length (c # take (max_seq_length - 2) xs @
      replicate (max_seq_length - 2 - length xs) 0 @ [d]) = max_seq_length" for c d :: int and xs
    by (simp add: max_seq_length_def)
  have "\<forall>x \<in> set (input_ids r) \<union> set (label_ids r). length x = max_seq_length"
  proof
    fix x assume "x \<in> set (input_ids r) \<union> set (label_ids r)"
    then consider "x \<in> set (input_ids r)" | "x \<in> set (label_ids r)" by blast
    then show "length x = max_seq_length"
    proof cases
      case 1
      then obtain i where "x = the (v2i (str_lit ''[CLS]'')) #
                    take (max_seq_length - 2) (map (\<lambda>j. the (v2i j)) i) @
                    replicate (max_seq_length - 2 - length i) 0 @
                    [the (v2i (str_lit ''[SEP]''))]"
        unfolding i by auto
      then show ?thesis using len [of _ "map (\<lambda>j. the (v2i j)) i"] by simp
    next
      case 2
      then obtain i where "x = the (label2id r (str_lit ''[CLS]'')) #
                    take (max_seq_length - 2) (map (\<lambda>j. the (label2id r j)) i) @
                    replicate (max_seq_length - 2 - length i) 0 @
                    [the (label2id r (str_lit ''[SEP]''))]"
        unfolding j by auto
      then show ?thesis using len [of _ "map (\<lambda>j. the (label2id r j)) i"] by simp
    qed
  qed
  with w l i j show ?thesis
    by (simp add: max_seq_length_def)
qed

section \<open>The encoded sequences\<close>

text \<open>
  Claim C1. For every sentence that \<open>handle\<close> parses, the encoded \<open>input_id\<close> list has
  exactly \<open>max_seq_length\<close> (202) elements: the tokens after the first
  \<open>max_seq_length - 2\<close> are dropped, the id of \<open>[CLS]\<close> is at index 0, zeros follow the
  token ids until the list has \<open>max_seq_length - 1\<close> elements, and the id of \<open>[SEP]\<close> is
  last. The same holds for each \<open>label_id\<close> list, encoded with \<open>label2id\<close>.
\<close>

theorem handle_fixed_length:
  assumes "handle it v2i fp = Inr r"
  shows "max_seq_length = 202 \<and>
         (\<forall>i \<in> set (words r). set i \<subseteq> dom v2i) \<and>
         (\<forall>i \<in> set (labels r). set i \<subseteq> dom (label2id r)) \<and>
         input_ids r =
           map (\<lambda>i. the (v2i (str_lit ''[CLS]'')) #
                    take (max_seq_length - 2) (map (\<lambda>j. the (v2i j)) i) @
                    replicate (max_seq_length - 2 - length i) 0 @
                    [the (v2i (str_lit ''[SEP]''))]) (words r) \<and>
         label_ids r =
           map (\<lambda>i. the (label2id r (str_lit ''[CLS]'')) #
                    take (max_seq_length - 2) (map (\<lambda>j. the (label2id r j)) i) @
                    replicate (max_seq_length - 2 - length i) 0 @
                    [the (label2id r (str_lit ''[SEP]''))]) (labels r) \<and>
         (\<forall>x \<in> set (input_ids r) \<union> set (label_ids r). length x = max_seq_length)"
  using assms by (rule handle_layout)

theorem handle_fixed_length_witness:
  "\<exists>h. handle remdups (vocab2id (readVocab remdups sample_vocab sample_train)) sample_train = Inr h \<and>
       map length (input_ids h) = [202] \<and> map length (label_ids h) = [202] \<and>
       map (take 4) (input_ids h) = [[1, 5, 4, 0]] \<and> map (drop 200) (input_ids h) = [[0, 2]] \<and>
       map (take 4) (label_ids h) = [[1, 4, 3, 0]] \<and> map (drop 200) (label_ids h) = [[0, 2]]"
proof -
  let ?V = "vocab2id (readVocab remdups sample_vocab sample_train)"
  from sample_handle obtain h where
    h: "handle remdups ?V sample_train = Inr h"
    and w: "words h = [[[97], [98]]]" and l: "labels h = [[[79], [66, 45, 76, 79, 67]]]"
    and ll: "label_list h = [[91, 67, 76, 83, 93], [91, 83, 69, 80, 93], [66, 45, 76, 79, 67], [79]]"
    by blast
  from h have l2i: "label2id h = data2id (label_list h)"
    by (auto simp: handle_Inr)
  have V: "?V [91, 67, 76, 83, 93] = Some 1" "?V [91, 83, 69, 80, 93] = Some 2"
    "?V [97] = Some 5" "?V [98] = Some 4"
    by (simp_all add: sample_vocab2id data2id_def)
  have L: "label2id h [91, 67, 76, 83, 93] = Some 1" "label2id h [91, 83, 69, 80, 93] = Some 2"
    "label2id h [79] = Some 4" "label2id h [66, 45, 76, 79, 67] = Some 3"
    by (simp_all add: l2i ll data2id_def)
  from handle_fixed_length [OF h]
  have "input_ids h =
           map (\<lambda>i. the (?V (str_lit ''[CLS]'')) #
                    take (max_seq_length - 2) (map (\<lambda>j. the (?V j)) i) @
                    replicate (max_seq_length - 2 - length i) 0 @
                    [the (?V (str_lit ''[SEP]''))]) (words h)"
    and "label_ids h =
           map (\<lambda>i. the (label2id h (str_lit ''[CLS]'')) #
                    take (max_seq_length - 2) (map (\<lambda>j. the (label2id h j)) i) @
                    replicate (max_seq_length - 2 - length i) 0 @
                    [the (label2id h (str_lit ''[SEP]''))]) (labels h)"
    by blast+
  then have "input_ids h = [1 # [5, 4] @ replicate 198 0 @ [2]]"
    and "label_ids h = [1 # [4, 3] @ replicate 198 0 @ [2]]"
    by (simp_all add: w l V L str_lit_def max_seq_length_def)
  then have "map length (input_ids h) = [202] \<and> map length (label_ids h) = [202] \<and>
       map (take 4) (input_ids h) = [[1, 5, 4, 0]] \<and> map (drop 200) (input_ids h) = [[0, 2]] \<and>
       map (take 4) (label_ids h) = [[1, 4, 3, 0]] \<and> map (drop 200) (label_ids h) = [[0, 2]]"
    by (simp add: numeral_eq_Suc)
  with h show ?thesis
    by (intro exI [where x = h]) simp
qed





lemma handle_read:
  assumes "handle it v2i fp = Inr r"
  shows "\<exists>s. read_lines \<lparr> rs_words = [], rs_labels = [], rs_word = [], rs_label = [],
                        rs_label_list = [str_lit ''[CLS]'', str_lit ''[SEP]''] \<rparr> fp = Inr s \<and>
             words r = rs_words s \<and> labels r = rs_labels s \<and>
             length (input_ids r) = length (rs_words s) \<and>
             length (label_ids r) = length (rs_labels s)"
  using assms by (auto simp: handle_Inr)

section \<open>Sentences without a closing blank line\<close>

text \<open>
  Claim C9. \<open>handle\<close> emits only the sentences that a blank line closes. When the lines
  \<open>rest\<close> at the end of the file hold no blank line, the words and labels read from them
  are in none of \<open>words\<close>, \<open>labels\<close>, \<open>input_ids\<close>, \<open>label_ids\<close>: these are what
  \<open>handle\<close> returns for the file without \<open>rest\<close> (the rows of \<open>label_ids\<close> being
  encoded with the \<open>label2id\<close> of the whole file), and each has as many entries as the
  file has blank lines.
\<close>

theorem handle_unterminated:
  assumes "set_order it"
    and "handle it v2i (fp @ rest) = Inr r"
    and "\<forall>l \<in> set rest. strip l \<noteq> []"
  shows "length (words r) = length (filter (\<lambda>l. strip l = []) (fp @ rest)) \<and>
         length (labels r) = length (filter (\<lambda>l. strip l = []) (fp @ rest)) \<and>
         length (input_ids r) = length (filter (\<lambda>l. strip l = []) (fp @ rest)) \<and>
         length (label_ids r) = length (filter (\<lambda>l. strip l = []) (fp @ rest)) \<and>
         (\<exists>r'. handle it v2i fp = Inr r' \<and>
               words r = words r' \<and> labels r = labels r' \<and> input_ids r = input_ids r' \<and>
               label_ids r =
                 map (\<lambda>i. the (label2id r (str_lit ''[CLS]'')) #
                          take (max_seq_length - 2) (map (\<lambda>j. the (label2id r j)) i) @
                          replicate (max_seq_length - 2 - length i) 0 @
                          [the (label2id r (str_lit ''[SEP]''))]) (labels r'))"
proof -
  let ?init = "\<lparr> rs_words = [], rs_labels = [], rs_word = [], rs_label = [],
                 rs_label_list = [str_lit ''[CLS]'', str_lit ''[SEP]''] \<rparr>"
  from handle_read [OF assms(2)] obtain s where
    s: "read_lines ?init (fp @ rest) = Inr s"
    and r: "words r = rs_words s" "labels r = rs_labels s"
      "length (input_ids r) = length (rs_words s)" "length (label_ids r) = length (rs_labels s)"
    by blast
  from read_lines_count [OF s] r
  have count: "length (words r) = length (filter (\<lambda>l. strip l = []) (fp @ rest))"
    "length (labels r) = length (filter (\<lambda>l. strip l = []) (fp @ rest))"
    "length (input_ids r) = length (filter (\<lambda>l. strip l = []) (fp @ rest))"
    "length (label_ids r) = length (filter (\<lambda>l. strip l = []) (fp @ rest))"
    by simp_all
  from s obtain s1 where s1: "read_lines ?init fp = Inr s1" and s2: "read_lines s1 rest = Inr s"
    by (auto simp: read_lines_append split: sum.splits)
  from read_lines_open [OF s2 assms(3)]
  have eq: "rs_words s = rs_words s1" "rs_labels s = rs_labels s1" by simp_all
  from assms(2) have "\<exists>r. handle it v2i (fp @ rest) = Inr r" by blast
  then have ok: "(\<forall>w \<in> set (rs_words s). set w \<subseteq> dom v2i) \<and>
      (rs_words s \<noteq> [] \<longrightarrow> str_lit ''[CLS]'' \<in> dom v2i \<and> str_lit ''[SEP]'' \<in> dom v2i)"
    unfolding handle_returns [OF assms(1)] using s by auto
  have "\<exists>r'. handle it v2i fp = Inr r'"
    unfolding handle_returns [OF assms(1)] using s1 ok eq by auto
  then obtain r' where r': "handle it v2i fp = Inr r'" by blast
  from handle_read [OF r'] s1 have w': "words r' = rs_words s1" "labels r' = rs_labels s1"
    by auto
  from handle_encoded [OF r'] handle_encoded [OF assms(2)] w' r eq
  have ii: "input_ids r = input_ids r'" by simp
  from handle_layout [OF assms(2)] w' r eq
  have "label_ids r =
                 map (\<lambda>i. the (label2id r (str_lit ''[CLS]'')) #
                          take (max_seq_length - 2) (map (\<lambda>j. the (label2id r j)) i) @
                          replicate (max_seq_length - 2 - length i) 0 @
                          [the (label2id r (str_lit ''[SEP]''))]) (labels r')"
    by simp
  with r' w' r eq ii count show ?thesis by auto
qed

theorem handle_unterminated_witness:
  "set_order remdups \<and>
   drop 3 sample_train = [str_lit ''a O'' @ [10]] \<and>
   list_all (\<lambda>l. strip l \<noteq> []) (drop 3 sample_train) \<and>
   (\<exists>h r'. handle remdups (vocab2id (readVocab remdups sample_vocab sample_train))
              (take 3 sample_train @ drop 3 sample_train) = Inr h \<and>
           handle remdups (vocab2id (readVocab remdups sample_vocab sample_train))
              (take 3 sample_train) = Inr r' \<and>
           length (words h) = 1 \<and> length (label_ids h) = 1 \<and>
           words h = words r' \<and> input_ids h = input_ids r')"
proof -
  let ?V = "vocab2id (readVocab remdups sample_vocab sample_train)"
  from sample_handle obtain h where
    h: "handle remdups ?V (take 3 sample_train @ drop 3 sample_train) = Inr h"
    by auto
  have d: "drop 3 sample_train = [str_lit ''a O'' @ [10]]"
    by (simp add: sample_train_lines str_lit_def)
  have o: "\<forall>l \<in> set (drop 3 sample_train). strip l \<noteq> []"
    by (simp add: sample_train_lines strip_def isspace_def)
  have c: "length (filter (\<lambda>l. strip l = []) (take 3 sample_train @ drop 3 sample_train)) = 1"
    by (simp add: sample_train_lines strip_def isspace_def)
  from handle_unterminated [OF set_order_remdups h o] c
  obtain r' where "handle remdups ?V (take 3 sample_train) = Inr r'"
    "length (words h) = 1" "length (label_ids h) = 1"
    "words h = words r'" "input_ids h = input_ids r'"
    by auto
  with h d o show ?thesis
    using set_order_remdups
    by (intro conjI exI [where x = h] exI [where x = r']) (simp_all add: list_all_iff)
qed

lemma lookup_all_Inl:
  "lookup_all m acc i = Inl e \<Longrightarrow> \<exists>k. e = KeyError k \<and> k \<notin> dom m"
  by (induction i arbitrary: acc) (auto simp: lookup_def split: option.splits)

lemma encode_Inl:
  "encode m i = Inl e \<Longrightarrow> \<exists>k. e = KeyError k \<and> k \<notin> dom m"
  by (auto simp: encode_def lookup_def Let_def split: sum.splits option.splits
           dest: lookup_all_Inl)

lemma encode_all_Inl:
  "encode_all m acc ws = Inl e \<Longrightarrow> \<exists>w \<in> set ws. encode m w = Inl e"
  by (induction ws arbitrary: acc) (auto split: sum.splits)

lemma label_encode_ok:
  assumes "set_order it"
    and "read_lines \<lparr> rs_words = [], rs_labels = [], rs_word = [], rs_label = [],
          rs_label_list = [str_lit ''[CLS]'', str_lit ''[SEP]''] \<rparr> fp = Inr s"
  shows "\<forall>w \<in> set (rs_labels s). \<exists>x. encode (data2id (it (rs_label_list s))) w = Inr x"
  using read_lines_init_labels [OF assms(2)] set_orderD [OF assms(1), of "rs_label_list s"]
  by (simp add: encode_ok dom_data2id)

lemma handle_Inl:
  assumes "set_order it" and "handle it v2i fp = Inl e"
  shows "e = IndexError \<or> (\<exists>k. e = KeyError k \<and> k \<notin> dom v2i)"
proof (cases "read_lines \<lparr> rs_words = [], rs_labels = [], rs_word = [], rs_label = [],
          rs_label_list = [str_lit ''[CLS]'', str_lit ''[SEP]''] \<rparr> fp")
  case (Inl e')
  with assms(2) have "e = e'" by (simp add: handle_def)
  with read_lines_error [OF Inl] show ?thesis by simp
next
  case (Inr s)
  show ?thesis
  proof (cases "encode_all v2i [] (rs_words s)")
    case (Inl e')
    with assms(2) Inr have "e = e'" by (simp add: handle_def Let_def)
    with encode_all_Inl [OF Inl] encode_Inl show ?thesis by blast
  next
    case iids: (Inr x)
    show ?thesis
    proof (cases "encode_all (data2id (it (rs_label_list s))) [] (rs_labels s)")
      case (Inl e')
      from encode_all_Inl [OF Inl] label_encode_ok [OF assms(1) Inr]
      show ?thesis by auto
    next
      case (Inr y)
      with assms(2) iids \<open>read_lines _ fp = Inr s\<close> show ?thesis
        by (simp add: handle_def Let_def)
    qed
  qed
qed

lemma handle_returns_terminated:
  assumes "set_order it"
  shows "(\<exists>r. handle it v2i fp = Inr r) \<longleftrightarrow>
           (\<forall>l \<in> set fp. strip l \<noteq> [] \<longrightarrow> 2 \<le> length (split_space (strip l))) \<and>
           (\<forall>l \<in> set (terminated fp). strip l \<noteq> [] \<longrightarrow> hd (split_space (strip l)) \<in> dom v2i) \<and>
           (terminated fp \<noteq> [] \<longrightarrow> str_lit ''[CLS]'' \<in> dom v2i \<and> str_lit ''[SEP]'' \<in> dom v2i)"
proof -
  let ?init = "\<lparr> rs_words = [], rs_labels = [], rs_word = [], rs_label = [],
                 rs_label_list = [str_lit ''[CLS]'', str_lit ''[SEP]''] \<rparr>"
  have toks: "(\<forall>w \<in> set (rs_words s). set w \<subseteq> dom v2i) \<longleftrightarrow>
      (\<forall>l \<in> set (terminated fp). strip l \<noteq> [] \<longrightarrow> hd (split_space (strip l)) \<in> dom v2i)"
    and ne: "rs_words s \<noteq> [] \<longleftrightarrow> terminated fp \<noteq> []"
    if "read_lines ?init fp = Inr s" for s
  proof -
    from read_lines_terminated [OF that]
    have c: "concat (rs_words s) = read_train_file [] (terminated fp)"
      and n: "rs_words s = [] \<longleftrightarrow> terminated fp = []" by simp_all
    have "(\<forall>w \<in> set (rs_words s). set w \<subseteq> dom v2i) \<longleftrightarrow> set (concat (rs_words s)) \<subseteq> dom v2i"
      by auto
    also have "\<dots> \<longleftrightarrow> (\<forall>l \<in> set (terminated fp). strip l \<noteq> [] \<longrightarrow> hd (split_space (strip l)) \<in> dom v2i)"
      unfolding c by (auto simp: read_train_file_eq)
    finally show "(\<forall>w \<in> set (rs_words s). set w \<subseteq> dom v2i) \<longleftrightarrow>
      (\<forall>l \<in> set (terminated fp). strip l \<noteq> [] \<longrightarrow> hd (split_space (strip l)) \<in> dom v2i)" .
    from n show "rs_words s \<noteq> [] \<longleftrightarrow> terminated fp \<noteq> []" by simp
  qed
  show ?thesis
  proof (cases "read_lines ?init fp")
    case (Inl e)
    then have "\<not> (\<exists>s. read_lines ?init fp = Inr s)" by simp
    then have "\<not> (\<forall>l \<in> set fp. strip l \<noteq> [] \<longrightarrow> 2 \<le> length (split_space (strip l)))"
      unfolding read_lines_ok .
    moreover from Inl have "\<not> (\<exists>r. handle it v2i fp = Inr r)"
      by (simp add: handle_def)
    ultimately show ?thesis by blast
  next
    case (Inr s)
    then have "\<exists>s. read_lines ?init fp = Inr s" by blast
    then have f: "\<forall>l \<in> set fp. strip l \<noteq> [] \<longrightarrow> 2 \<le> length (split_space (strip l))"
      unfolding read_lines_ok .
    show ?thesis
      unfolding handle_returns [OF assms] using Inr f toks [OF Inr] ne [OF Inr] by auto
  qed
qed

section \<open>When \<open>handle\<close> returns\<close>

text \<open>
  Claim C4, as amended. \<open>handle\<close> returns normally if and only if every line that is not
  blank has at least two space-separated fields, the first field of every such line
  that a later blank line closes is a key of \<open>vocab2id\<close>, and, when the file has a blank
  line, \<open>[CLS]\<close> and \<open>[SEP]\<close> are keys of \<open>vocab2id\<close>. Otherwise it raises \<open>IndexError\<close>
  (a line with one field) or \<open>KeyError\<close> for a string that is not a key of \<open>vocab2id\<close>.
  With the \<open>vocab2id\<close> that \<open>readVocab\<close> builds from the same training file, no token
  of the file is missing: \<open>handle\<close> returns if and only if every line that is not blank
  has two fields and, when the file has a blank line, \<open>[CLS]\<close> and \<open>[SEP]\<close> are in the
  vocabulary.
\<close>

theorem handle_returns_iff:
  assumes "set_order it"
  shows "((\<exists>r. handle it v2i fp = Inr r) \<longleftrightarrow>
           (\<forall>l \<in> set fp. strip l \<noteq> [] \<longrightarrow> 2 \<le> length (split_space (strip l))) \<and>
           (\<forall>l \<in> set (terminated fp). strip l \<noteq> [] \<longrightarrow> hd (split_space (strip l)) \<in> dom v2i) \<and>
           (terminated fp \<noteq> [] \<longrightarrow> str_lit ''[CLS]'' \<in> dom v2i \<and> str_lit ''[SEP]'' \<in> dom v2i)) \<and>
         (\<forall>e. handle it v2i fp = Inl e \<longrightarrow>
              e = IndexError \<or> (\<exists>k. e = KeyError k \<and> k \<notin> dom v2i)) \<and>
         ((\<exists>r. handle it (vocab2id (readVocab it f fp)) fp = Inr r) \<longleftrightarrow>
           (\<forall>l \<in> set fp. strip l \<noteq> [] \<longrightarrow> 2 \<le> length (split_space (strip l))) \<and>
           (terminated fp \<noteq> [] \<longrightarrow>
              str_lit ''[CLS]'' \<in> set (vocab (readVocab it f fp)) \<and>
              str_lit ''[SEP]'' \<in> set (vocab (readVocab it f fp))))"
proof -
  let ?V = "vocab2id (readVocab it f fp)"
  have dom: "dom ?V = set (vocab (readVocab it f fp))"
    by (simp add: readVocab_def Let_def dom_data2id)
  have "set (vocab (readVocab it f fp)) = set (read_train_file (read_vocab_file [] f) fp)"
    using set_orderD [OF assms] by (simp add: readVocab_def Let_def)
  then have known: "hd (split_space (strip l)) \<in> dom ?V"
    if "l \<in> set (terminated fp)" "strip l \<noteq> []" for l
    using that terminated_subset [of fp] by (auto simp: dom read_train_file_eq)
  have "(\<exists>r. handle it ?V fp = Inr r) \<longleftrightarrow>
           (\<forall>l \<in> set fp. strip l \<noteq> [] \<longrightarrow> 2 \<le> length (split_space (strip l))) \<and>
           (terminated fp \<noteq> [] \<longrightarrow>
              str_lit ''[CLS]'' \<in> set (vocab (readVocab it f fp)) \<and>
              str_lit ''[SEP]'' \<in> set (vocab (readVocab it f fp)))"
    unfolding handle_returns_terminated [OF assms] dom [symmetric] using known by blast
  with handle_returns_terminated [OF assms, of v2i fp] handle_Inl [OF assms, of v2i fp]
  show ?thesis by blast
qed

lemma sample_unknown_lines: "sample_unknown = [[120, 32, 79, 10], [10]]"
  by (simp add: sample_unknown_def str_lit_def)

lemma sample_open_lines: "sample_open = [[120, 32, 79, 10]]"
  by (simp add: sample_open_def str_lit_def)

lemma sample_one_field_lines: "sample_one_field = [[97, 32, 79, 10], [98, 10], [10]]"
  by (simp add: sample_one_field_def str_lit_def)

lemma sample_dom:
  "dom (vocab2id (readVocab remdups sample_vocab sample_train)) =
     {[91, 67, 76, 83, 93], [91, 83, 69, 80, 93], [91, 80, 65, 68, 93], [98], [97]}"
  by (simp add: sample_vocab2id dom_data2id)

theorem handle_returns_iff_witness:
  "set_order remdups \<and>
   (\<exists>r. handle remdups (vocab2id (readVocab remdups sample_vocab sample_train)) sample_train = Inr r) \<and>
   handle remdups (vocab2id (readVocab remdups sample_vocab sample_train)) sample_unknown =
     Inl (KeyError (str_lit ''x''))"
proof -
  let ?V = "vocab2id (readVocab remdups sample_vocab sample_train)"
  note T = handle_returns_iff [OF set_order_remdups, of ?V _ sample_vocab]
  have t: "terminated sample_train = take 3 sample_train"
    by (simp add: terminated_def sample_train_lines strip_def isspace_def)
  have "\<exists>r. handle remdups ?V sample_train = Inr r"
    using T [of sample_train] unfolding t sample_dom
    by (simp add: sample_train_lines strip_def isspace_def str_lit_def)
  moreover have "handle remdups ?V sample_unknown = Inl (KeyError (str_lit ''x''))"
  proof -
    have "\<not> (\<exists>r. handle remdups ?V sample_unknown = Inr r)"
      using T [of sample_unknown] unfolding sample_dom
      by (simp add: terminated_def sample_unknown_lines strip_def isspace_def)
    then obtain e where e: "handle remdups ?V sample_unknown = Inl e"
      by (cases "handle remdups ?V sample_unknown") auto
    have "read_lines \<lparr> rs_words = [], rs_labels = [], rs_word = [], rs_label = [],
        rs_label_list = [str_lit ''[CLS]'', str_lit ''[SEP]''] \<rparr> sample_unknown =
        Inr \<lparr> rs_words = [[[120]]], rs_labels = [[[79]]], rs_word = [], rs_label = [],
        rs_label_list = [str_lit ''[CLS]'', str_lit ''[SEP]'', [79]] \<rparr>"
      by (simp add: sample_unknown_lines read_line_def strip_def isspace_def)
    moreover have "?V [120] = None"
      by (simp add: sample_vocab2id data2id_notin)
    ultimately have "handle remdups ?V sample_unknown = Inl (KeyError [120])"
      by (simp add: handle_def encode_def lookup_def)
    then show ?thesis by (simp add: str_lit_def)
  qed
  ultimately show ?thesis using set_order_remdups by blast
qed

lemma sample_no_vocab:
  "vocab2id (readVocab remdups [] sample_train) = data2id [[98], [97]]"
  by (simp add: readVocab_def Let_def sample_train_lines strip_def isspace_def)

theorem handle_returns_counterexample:
  "list_all (\<lambda>l. strip l = [] \<or>
        hd (split_space (strip l)) \<in> dom (vocab2id (readVocab remdups sample_vocab sample_one_field)))
      sample_one_field \<and>
   handle remdups (vocab2id (readVocab remdups sample_vocab sample_one_field)) sample_one_field =
     Inl IndexError \<and>
   \<not> list_all (\<lambda>l. strip l = [] \<or>
        hd (split_space (strip l)) \<in> dom (vocab2id (readVocab remdups sample_vocab sample_train)))
      sample_open \<and>
   (\<exists>r. handle remdups (vocab2id (readVocab remdups sample_vocab sample_train)) sample_open = Inr r \<and>
        words r = [] \<and> input_ids r = []) \<and>
   list_all (\<lambda>l. strip l = [] \<or>
        hd (split_space (strip l)) \<in> dom (vocab2id (readVocab remdups [] sample_train)))
      sample_train \<and>
   handle remdups (vocab2id (readVocab remdups [] sample_train)) sample_train =
     Inl (KeyError (str_lit ''[CLS]''))"
proof -
  have e: "list_all (\<lambda>l. strip l = [] \<or>
        hd (split_space (strip l)) \<in> dom (vocab2id (readVocab remdups [] sample_train)))
      sample_train"
    unfolding sample_no_vocab dom_data2id
    by (simp add: sample_train_lines strip_def isspace_def)
  have "data2id [[98], [97]] [97] = Some 2" "data2id [[98], [97]] [98] = Some 1"
    "data2id [[98], [97]] (str_lit ''[CLS]'') = None"
    by (simp_all add: data2id_def str_lit_def)
  then have f: "handle remdups (vocab2id (readVocab remdups [] sample_train)) sample_train =
     Inl (KeyError (str_lit ''[CLS]''))"
    unfolding sample_no_vocab
    by (simp add: handle_def sample_read encode_def lookup_def)
  have d1: "dom (vocab2id (readVocab remdups sample_vocab sample_one_field)) =
      {[91, 67, 76, 83, 93], [91, 83, 69, 80, 93], [91, 80, 65, 68, 93], [97], [98]}"
    by (simp add: readVocab_def Let_def dom_data2id sample_vocab_lines sample_one_field_lines
        strip_def isspace_def)
  have a: "list_all (\<lambda>l. strip l = [] \<or>
        hd (split_space (strip l)) \<in> dom (vocab2id (readVocab remdups sample_vocab sample_one_field)))
      sample_one_field"
    unfolding d1 by (simp add: sample_one_field_lines strip_def isspace_def)
  have b: "handle remdups (vocab2id (readVocab remdups sample_vocab sample_one_field)) sample_one_field =
     Inl IndexError"
    by (simp add: handle_def sample_one_field_lines read_line_def strip_def isspace_def)
  have c: "\<not> list_all (\<lambda>l. strip l = [] \<or>
        hd (split_space (strip l)) \<in> dom (vocab2id (readVocab remdups sample_vocab sample_train)))
      sample_open"
    unfolding sample_dom by (simp add: sample_open_lines strip_def isspace_def)
  have "read_lines \<lparr> rs_words = [], rs_labels = [], rs_word = [], rs_label = [],
        rs_label_list = [str_lit ''[CLS]'', str_lit ''[SEP]''] \<rparr> sample_open =
        Inr \<lparr> rs_words = [], rs_labels = [], rs_word = [[120]], rs_label = [[79]],
        rs_label_list = [str_lit ''[CLS]'', str_lit ''[SEP]'', [79]] \<rparr>"
    by (simp add: sample_open_lines read_line_def strip_def isspace_def)
  then have d: "\<exists>r. handle remdups (vocab2id (readVocab remdups sample_vocab sample_train)) sample_open = Inr r \<and>
        words r = [] \<and> input_ids r = []"
    by (simp add: handle_def Let_def)
  from a b c d e f show ?thesis by blast
qed

lemma tensor_row_nth: "i < length t \<Longrightarrow> tensor_row t (int i) = Inr (t ! i)"
  by (simp add: tensor_row_def)

lemma tensor_row_out: "length t \<le> i \<Longrightarrow> tensor_row t (int i) = Inl IndexError"
  by (simp add: tensor_row_def)

lemma handle_rows:
  assumes "handle it v2i fp = Inr r"
  shows "length (input_ids r) = length (label_ids r)"
proof -
  from handle_read [OF assms] obtain s where
    s: "read_lines \<lparr> rs_words = [], rs_labels = [], rs_word = [], rs_label = [],
          rs_label_list = [str_lit ''[CLS]'', str_lit ''[SEP]''] \<rparr> fp = Inr s"
    and l: "length (input_ids r) = length (rs_words s)" "length (label_ids r) = length (rs_labels s)"
    by blast
  from read_lines_count [OF s] l show ?thesis by simp
qed

section \<open>The data set\<close>

text \<open>
  Claim C7, as amended. For two stored tensors of two dimensions, \<open>__len__\<close> returns
  the number of rows of \<open>input_ids\<close>, whatever \<open>label_ids\<close> is. For an index \<open>i\<close> below that number and below the number of rows of
  \<open>label_ids\<close>, \<open>__getitem__(i)\<close> returns the pair of the \<open>i\<close>-th input row and the
  \<open>i\<close>-th label row; for an index below that number and not below the number of rows of
  \<open>label_ids\<close> it raises \<open>IndexError\<close>. Both leave the stored tensors as they are. So
  when the two tensors have the same number of rows, every index below the length gives
  its pair; and \<open>input_ids\<close> and \<open>label_ids\<close> as \<open>handle\<close> returns them have the same
  number of rows, also when cut to their first 8000 rows. (The notebooks store
  \<open>torch.Tensor(...).long()\<close> of these lists; that conversion of the elements is not
  part of the model, and nothing is stated about the values it gives.)
\<close>

theorem BertNerDataset_rows:
  "BertNerDataset_len self = (self, int (length (ds_input_ids self))) \<and>
   (i < length (ds_input_ids self) \<and> i < length (ds_label_ids self) \<longrightarrow>
      BertNerDataset_getitem self (int i) =
        (self, Inr (ds_input_ids self ! i, ds_label_ids self ! i))) \<and>
   (i < length (ds_input_ids self) \<and> length (ds_label_ids self) \<le> i \<longrightarrow>
      BertNerDataset_getitem self (int i) = (self, Inl IndexError)) \<and>
   (length (ds_input_ids self) = length (ds_label_ids self) \<and> i < length (ds_input_ids self) \<longrightarrow>
      BertNerDataset_getitem self (int i) =
        (self, Inr (ds_input_ids self ! i, ds_label_ids self ! i))) \<and>
   (handle it v2i fp = Inr r \<longrightarrow>
      length (input_ids r) = length (label_ids r) \<and>
      length (take 8000 (input_ids r)) = length (take 8000 (label_ids r)))"
proof -
  have "length (input_ids r) = length (label_ids r) \<and>
      length (take 8000 (input_ids r)) = length (take 8000 (label_ids r))"
    if "handle it v2i fp = Inr r"
    using handle_rows [OF that] by simp
  then show ?thesis
    by (simp add: BertNerDataset_len_def BertNerDataset_getitem_def tensor_row_nth tensor_row_out)
qed

theorem BertNerDataset_rows_witness:
  "BertNerDataset_getitem (BertNerDataset_init [[1, 2], [3, 4]] [[5, 6], [7, 8]]) 1 =
     (BertNerDataset_init [[1, 2], [3, 4]] [[5, 6], [7, 8]], Inr ([3, 4], [7, 8])) \<and>
   BertNerDataset_getitem (BertNerDataset_init [[1, 2], [3, 4]] [[5, 6]]) 1 =
     (BertNerDataset_init [[1, 2], [3, 4]] [[5, 6]], Inl IndexError) \<and>
   (\<exists>h. handle remdups (vocab2id (readVocab remdups sample_vocab sample_train)) sample_train = Inr h \<and>
        length (take 8000 (input_ids h)) = 1 \<and> length (take 8000 (label_ids h)) = 1)"
proof -
  let ?V = "vocab2id (readVocab remdups sample_vocab sample_train)"
  from sample_handle obtain h where
    h: "handle remdups ?V sample_train = Inr h" and w: "words h = [[[97], [98]]]"
    by blast
  from h w have len: "length (input_ids h) = 1"
    by (auto simp: handle_Inr)
  have a: "BertNerDataset_getitem (BertNerDataset_init [[1, 2], [3, 4]] [[5, 6], [7, 8]]) 1 =
     (BertNerDataset_init [[1, 2], [3, 4]] [[5, 6], [7, 8]], Inr ([3, 4], [7, 8]))"
    using BertNerDataset_rows [of "BertNerDataset_init [[1, 2], [3, 4]] [[5, 6], [7, 8]]" 1]
    by (simp add: BertNerDataset_init_def)
  have b: "BertNerDataset_getitem (BertNerDataset_init [[1, 2], [3, 4]] [[5, 6]]) 1 =
     (BertNerDataset_init [[1, 2], [3, 4]] [[5, 6]], Inl IndexError)"
    using BertNerDataset_rows [of "BertNerDataset_init [[1, 2], [3, 4]] [[5, 6]]" 1]
    by (simp add: BertNerDataset_init_def)
  have "length (input_ids h) = length (label_ids h)"
    using BertNerDataset_rows [of "BertNerDataset_init [] []" 0 remdups ?V sample_train h] h
    by blast
  with len have c: "length (take 8000 (input_ids h)) = 1 \<and> length (take 8000 (label_ids h)) = 1"
    by simp
  from a b c h show ?thesis by blast
qed

theorem BertNerDataset_rows_counterexample:
  "BertNerDataset_len (BertNerDataset_init [[1, 2], [3, 4]] [[5, 6]]) =
     (BertNerDataset_init [[1, 2], [3, 4]] [[5, 6]], 2) \<and>
   BertNerDataset_getitem (BertNerDataset_init [[1, 2], [3, 4]] [[5, 6]]) 1 =
     (BertNerDataset_init [[1, 2], [3, 4]] [[5, 6]], Inl IndexError)"
  by (simp add: BertNerDataset_len_def BertNerDataset_getitem_def BertNerDataset_init_def
      tensor_row_def)

lemma albert_read_vocab_file_eq: "albert_read_vocab_file acc f = read_vocab_file acc f"
  by (induction f arbitrary: acc) auto

lemma albert_read_train_file_eq: "albert_read_train_file acc fp = read_train_file acc fp"
  by (induction fp arbitrary: acc) auto

lemma albert_read_line_eq: "albert_read_line s line = read_line s line"
  by (simp add: albert_read_line_def read_line_def)

lemma albert_read_lines_eq: "albert_read_lines s fp = read_lines s fp"
  by (induction fp arbitrary: s) (auto simp: albert_read_line_eq split: sum.splits)

lemma albert_lookup_all_eq: "albert_lookup_all m acc i = lookup_all m acc i"
  by (induction i arbitrary: acc) (auto split: sum.splits)

lemma albert_pad_zero_eq: "albert_pad_zero n xs = pad_zero n xs"
proof (induction n xs rule: pad_zero.induct)
  case (1 n xs)
  show ?case
  proof (cases "length xs < n")
    case True
    with "1" show ?thesis
      by (subst albert_pad_zero.simps, subst pad_zero.simps) simp
  next
    case False
    then show ?thesis
      by (subst albert_pad_zero.simps, subst pad_zero.simps) simp
  qed
qed

lemma albert_max_seq_length_eq: "albert_max_seq_length = max_seq_length"
  by (simp add: albert_max_seq_length_def max_seq_length_def)

lemma albert_encode_eq: "albert_encode m i = encode m i"
  unfolding albert_encode_def encode_def albert_lookup_all_eq albert_pad_zero_eq
    albert_max_seq_length_eq
  by (rule refl)

lemma albert_encode_all_eq: "albert_encode_all m acc ws = encode_all m acc ws"
  by (induction ws arbitrary: acc) (auto simp: albert_encode_eq split: sum.splits)

section \<open>The BERT and the ALBERT preprocessing\<close>

text \<open>
  Claim C10. \<open>readVocab\<close> and \<open>handle\<close> of the BERT notebook and of the ALBERT notebooks
  are extensionally equal: for the same file contents (and the same enumeration order
  of the sets) they return the same vocabulary, the same id tables and the same
  \<open>input_ids\<close> and \<open>label_ids\<close>.
\<close>

theorem albert_preprocessing_equal:
  "albert_max_seq_length = max_seq_length \<and>
   albert_readVocab it f fp = readVocab it f fp \<and>
   albert_handle it v2i fp = handle it v2i fp \<and>
   albert_handle it (vocab2id (albert_readVocab it f tr)) fp =
     handle it (vocab2id (readVocab it f tr)) fp"
proof -
  have r: "albert_readVocab it f fp = readVocab it f fp" for f fp
    by (simp add: albert_readVocab_def readVocab_def albert_read_vocab_file_eq
        albert_read_train_file_eq)
  have h: "albert_handle it v2i fp = handle it v2i fp" for v2i
    unfolding albert_handle_def handle_def albert_read_lines_eq albert_encode_all_eq
    by (rule refl)
  show ?thesis
    by (simp add: r h albert_max_seq_length_eq)
qed

theorem albert_preprocessing_equal_witness:
  "albert_readVocab remdups sample_vocab sample_train = readVocab remdups sample_vocab sample_train \<and>
   albert_handle remdups (vocab2id (albert_readVocab remdups sample_vocab sample_train)) sample_train =
     handle remdups (vocab2id (readVocab remdups sample_vocab sample_train)) sample_train"
  using albert_preprocessing_equal
    [where it = remdups and f = sample_vocab and fp = sample_train and tr = sample_train]
  by simp

section \<open>What \<open>forward\<close> returns\<close>

lemma BertCRFNer_forward_eq:
  "BertCRFNer_forward T x None = Inr (Decoded (crf_decode T (permute T [1, 0, 2] (fst (bert T x))))) \<and>
   BertCRFNer_forward T x (Some tg) = Inr (Loss (neg T (crf T (fst (bert T x)) tg)))"
  by (simp add: BertCRFNer_forward_def split: prod.splits)

lemma AlBertBiGRUCRFNer_forward_eq:
  "AlBertBiGRUCRFNer_forward T x None =
     Inr (Decoded (crf_decode T (permute T [1, 0, 2] (fst (bigru T (fst (albert T x))))))) \<and>
   AlBertBiGRUCRFNer_forward T x (Some tg) =
     Inr (Loss (neg T (crf T (fst (bigru T (fst (albert T x)))) tg)))"
  by (simp add: AlBertBiGRUCRFNer_forward_def call_rnn_def split: prod.splits)

lemma BertBiLSTMCRFNer_forward_eq:
  "BertBiLSTMCRFNer_forward T x None =
     Inr (Decoded (crf_decode T (permute T [1, 0, 2] (fst (bilstm T (fst (bert T x))))))) \<and>
   BertBiLSTMCRFNer_forward T x (Some tg) =
     Inr (Loss (neg T (crf T (fst (bilstm T (fst (bert T x)))) tg)))"
  by (simp add: BertBiLSTMCRFNer_forward_def call_rnn_def split: prod.splits)

lemma BertBiGRUCRFNer_forward_eq:
  "BertBiGRUCRFNer_forward T x None =
     Inr (Decoded (crf_decode T (permute T [1, 0, 2] (fst (bigru T (fst (bert T x))))))) \<and>
   BertBiGRUCRFNer_forward T x (Some tg) =
     Inr (Loss (neg T (crf T (fst (bigru T (fst (bert T x)))) tg)))"
  by (simp add: BertBiGRUCRFNer_forward_def call_rnn_def split: prod.splits)

lemma AlBertCRFNer_forward_eq:
  "AlBertCRFNer_forward T x None =
     Inr (Decoded (crf_decode T (permute T [1, 0, 2] (fst (albert T x))))) \<and>
   AlBertCRFNer_forward T x (Some tg) = Inr (Loss (neg T (crf T (fst (albert T x)) tg)))"
  by (simp add: AlBertCRFNer_forward_def split: prod.splits)

lemma AlBertBiLSTMCRFNer_forward_eq:
  "AlBertBiLSTMCRFNer_forward T x None =
     Inr (Decoded (crf_decode T (permute T [1, 0, 2] (fst (bilstm T (fst (albert T x))))))) \<and>
   AlBertBiLSTMCRFNer_forward T x (Some tg) =
     Inr (Loss (neg T (crf T (fst (bilstm T (fst (albert T x)))) tg)))"
  by (simp add: AlBertBiLSTMCRFNer_forward_def call_rnn_def split: prod.splits)

lemma BertBiGRUSelfAttentionCRFNer_forward_eq:
  "SelfAttention_forward T g (fst (bigru T (fst (bert T x)))) = Inr (out, g') \<Longrightarrow>
   BertBiGRUSelfAttentionCRFNer_forward T g x None =
     Inr (Decoded (crf_decode T (permute T [1, 0, 2] out)), g') \<and>
   BertBiGRUSelfAttentionCRFNer_forward T g x (Some tg) = Inr (Loss (neg T (crf T out tg)), g')"
  by (simp add: BertBiGRUSelfAttentionCRFNer_forward_def call_rnn_def case_prod_beta)

text \<open>
  Claim C5. For every model class, \<open>forward\<close> with tags returns the negated value of the
  CRF module on the encoder output, and \<open>forward\<close> without tags returns \<open>crf.decode\<close> of
  the encoder output with its axes permuted by \<open>(1, 0, 2)\<close>. The classes above do so.
  \<open>AlBertBiGRUSelfAttentionCRFNer.forward\<close> does not: it passes the pair that the
  encoder returns to the recurrent layer, and raises for every input, with or without
  tags.
\<close>

theorem AlBertBiGRUSelfAttentionCRFNer_forward_raises:
  "AlBertBiGRUSelfAttentionCRFNer_forward T g x tags = Inl AttributeError"
  by (simp add: AlBertBiGRUSelfAttentionCRFNer_forward_def call_rnn_def split: prod.splits)

section \<open>The weights of \<open>SelfAttention.forward\<close>\<close>

lemma SelfAttention_forward_draws:
  assumes "shape T x = [L, N, E]"
  shows "SelfAttention_forward T g x =
     Inr (fst (multihead T
            (matmul T (fst (uniform T g [L, N, N] (embed_dim T))) x)
            (matmul T (fst (uniform T (snd (uniform T g [L, N, N] (embed_dim T)))
                                 [L, N, N] (embed_dim T))) x)
            (matmul T (fst (uniform T (snd (uniform T (snd (uniform T g [L, N, N] (embed_dim T)))
                                 [L, N, N] (embed_dim T))) [L, N, N] (embed_dim T))) x)),
          snd (uniform T (snd (uniform T (snd (uniform T g [L, N, N] (embed_dim T)))
                                 [L, N, N] (embed_dim T))) [L, N, N] (embed_dim T)))"
  using assms by (simp add: SelfAttention_forward_def case_prod_beta Let_def)

lemma sample_forward:
  "SelfAttention_forward sample_torch g x = Inr (111 * x + 111 * g + 210, g + 3)"
  by (simp add: SelfAttention_forward_def sample_torch_def)

text \<open>
  Claim C3. \<open>SelfAttention.forward\<close> makes its projection weights anew on every call:
  \<open>W1\<close>, \<open>W2\<close> and \<open>W3\<close> are not fields of the module but are allocated and drawn
  inside \<open>forward\<close>, one after the other, from the state of the random generator at
  the call. A second call on the same \<open>x\<close> starts from the state that the first call
  left and draws three weights of its own, so none of the first call's weights is used
  again, and the output is not a function of the module and \<open>x\<close> alone. (That the
  draws of the library's generator are statistically independent is a property of that
  generator, about which nothing is assumed here.)
\<close>

theorem SelfAttention_forward_resamples:
  "(shape T x = [L, N, E] \<longrightarrow>
      (\<exists>W1 g1 W2 g2 W3 g3 V1 h1 V2 h2 V3 h3.
          uniform T g [L, N, N] (embed_dim T) = (W1, g1) \<and>
          uniform T g1 [L, N, N] (embed_dim T) = (W2, g2) \<and>
          uniform T g2 [L, N, N] (embed_dim T) = (W3, g3) \<and>
          SelfAttention_forward T g x =
            Inr (fst (multihead T (matmul T W1 x) (matmul T W2 x) (matmul T W3 x)), g3) \<and>
          uniform T g3 [L, N, N] (embed_dim T) = (V1, h1) \<and>
          uniform T h1 [L, N, N] (embed_dim T) = (V2, h2) \<and>
          uniform T h2 [L, N, N] (embed_dim T) = (V3, h3) \<and>
          SelfAttention_forward T g3 x =
            Inr (fst (multihead T (matmul T V1 x) (matmul T V2 x) (matmul T V3 x)), h3))) \<and>
   \<not> (\<exists>F. \<forall>(T' :: (int, int) torch) g' x'.
          map_sum id fst (SelfAttention_forward T' g' x') = F T' x')"
proof (rule conjI)
  show "shape T x = [L, N, E] \<longrightarrow>
      (\<exists>W1 g1 W2 g2 W3 g3 V1 h1 V2 h2 V3 h3.
          uniform T g [L, N, N] (embed_dim T) = (W1, g1) \<and>
          uniform T g1 [L, N, N] (embed_dim T) = (W2, g2) \<and>
          uniform T g2 [L, N, N] (embed_dim T) = (W3, g3) \<and>
          SelfAttention_forward T g x =
            Inr (fst (multihead T (matmul T W1 x) (matmul T W2 x) (matmul T W3 x)), g3) \<and>
          uniform T g3 [L, N, N] (embed_dim T) = (V1, h1) \<and>
          uniform T h1 [L, N, N] (embed_dim T) = (V2, h2) \<and>
          uniform T h2 [L, N, N] (embed_dim T) = (V3, h3) \<and>
          SelfAttention_forward T g3 x =
            Inr (fst (multihead T (matmul T V1 x) (matmul T V2 x) (matmul T V3 x)), h3))"
  proof
    assume sh: "shape T x = [L, N, E]"
    obtain W1 g1 where d1: "uniform T g [L, N, N] (embed_dim T) = (W1, g1)" by fastforce
    obtain W2 g2 where d2: "uniform T g1 [L, N, N] (embed_dim T) = (W2, g2)" by fastforce
    obtain W3 g3 where d3: "uniform T g2 [L, N, N] (embed_dim T) = (W3, g3)" by fastforce
    obtain V1 h1 where e1: "uniform T g3 [L, N, N] (embed_dim T) = (V1, h1)" by fastforce
    obtain V2 h2 where e2: "uniform T h1 [L, N, N] (embed_dim T) = (V2, h2)" by fastforce
    obtain V3 h3 where e3: "uniform T h2 [L, N, N] (embed_dim T) = (V3, h3)" by fastforce
    have a: "SelfAttention_forward T g x =
            Inr (fst (multihead T (matmul T W1 x) (matmul T W2 x) (matmul T W3 x)), g3)"
      by (simp add: SelfAttention_forward_draws [OF sh] d1 d2 d3)
    have b: "SelfAttention_forward T g3 x =
            Inr (fst (multihead T (matmul T V1 x) (matmul T V2 x) (matmul T V3 x)), h3)"
      by (simp add: SelfAttention_forward_draws [OF sh] e1 e2 e3)
    from d1 d2 d3 e1 e2 e3 a b show "\<exists>W1 g1 W2 g2 W3 g3 V1 h1 V2 h2 V3 h3.
          uniform T g [L, N, N] (embed_dim T) = (W1, g1) \<and>
          uniform T g1 [L, N, N] (embed_dim T) = (W2, g2) \<and>
          uniform T g2 [L, N, N] (embed_dim T) = (W3, g3) \<and>
          SelfAttention_forward T g x =
            Inr (fst (multihead T (matmul T W1 x) (matmul T W2 x) (matmul T W3 x)), g3) \<and>
          uniform T g3 [L, N, N] (embed_dim T) = (V1, h1) \<and>
          uniform T h1 [L, N, N] (embed_dim T) = (V2, h2) \<and>
          uniform T h2 [L, N, N] (embed_dim T) = (V3, h3) \<and>
          SelfAttention_forward T g3 x =
            Inr (fst (multihead T (matmul T V1 x) (matmul T V2 x) (matmul T V3 x)), h3)"
      by blast
  qed
next
  show "\<not> (\<exists>F. \<forall>(T' :: (int, int) torch) g' x'.
          map_sum id fst (SelfAttention_forward T' g' x') = F T' x')"
  proof
    assume "\<exists>F. \<forall>(T' :: (int, int) torch) g' x'.
          map_sum id fst (SelfAttention_forward T' g' x') = F T' x'"
    then obtain F where F: "\<And>(T' :: (int, int) torch) g' x'.
          map_sum id fst (SelfAttention_forward T' g' x') = F T' x'" by blast
    from F [of sample_torch 0 0] F [of sample_torch 3 0]
    have "map_sum id fst (SelfAttention_forward sample_torch 0 0) =
          map_sum id fst (SelfAttention_forward sample_torch 3 0)" by simp
    then show False by (simp add: sample_forward)
  qed
qed

theorem SelfAttention_forward_resamples_witness:
  "shape sample_torch 0 = [2, 3, 4] \<and>
   uniform sample_torch 0 [2, 3, 3] (embed_dim sample_torch) = (0, 1) \<and>
   SelfAttention_forward sample_torch 0 0 = Inr (210, 3) \<and>
   uniform sample_torch 3 [2, 3, 3] (embed_dim sample_torch) = (3, 4) \<and>
   SelfAttention_forward sample_torch 3 0 = Inr (543, 6)"
proof -
  have sh: "shape sample_torch 0 = [2, 3, 4]"
    by (simp add: sample_torch_def)
  have u: "uniform sample_torch g [2, 3, 3] (embed_dim sample_torch) = (g, g + 1)" for g
    by (simp add: sample_torch_def)
  from SelfAttention_forward_resamples [of sample_torch 0 2 3 4 0] sh
  obtain W1 g1 W2 g2 W3 g3 V1 h1 V2 h2 V3 h3 where
    d: "uniform sample_torch 0 [2, 3, 3] (embed_dim sample_torch) = (W1, g1)"
       "uniform sample_torch g1 [2, 3, 3] (embed_dim sample_torch) = (W2, g2)"
       "uniform sample_torch g2 [2, 3, 3] (embed_dim sample_torch) = (W3, g3)"
    and a: "SelfAttention_forward sample_torch 0 0 =
       Inr (fst (multihead sample_torch (matmul sample_torch W1 0) (matmul sample_torch W2 0)
          (matmul sample_torch W3 0)), g3)"
    and e: "uniform sample_torch g3 [2, 3, 3] (embed_dim sample_torch) = (V1, h1)"
       "uniform sample_torch h1 [2, 3, 3] (embed_dim sample_torch) = (V2, h2)"
       "uniform sample_torch h2 [2, 3, 3] (embed_dim sample_torch) = (V3, h3)"
    and b: "SelfAttention_forward sample_torch g3 0 =
       Inr (fst (multihead sample_torch (matmul sample_torch V1 0) (matmul sample_torch V2 0)
          (matmul sample_torch V3 0)), h3)"
    by blast
  from d have w: "W1 = 0" "g1 = 1" "W2 = 1" "g2 = 2" "W3 = 2" "g3 = 3"
    by (simp_all add: u)
  with e have v: "V1 = 3" "h1 = 4" "V2 = 4" "h2 = 5" "V3 = 5" "h3 = 6"
    by (simp_all add: u)
  from a w have "SelfAttention_forward sample_torch 0 0 = Inr (210, 3)"
    by (simp add: sample_torch_def)
  moreover from b w v have "SelfAttention_forward sample_torch 3 0 = Inr (543, 6)"
    by (simp add: sample_torch_def)
  ultimately show ?thesis using sh u by simp
qed

end
